theory Spec2Isabelle
  imports Main
begin

section \<open>The session-multiplexed transport layer of the RememberBook MCP server\<close>

text \<open>
  The embedded code is the Express handler \<^verbatim>\<open>app.post("/mcp", async (req, res) => ...)\<close>
  together with the module-level \<^verbatim>\<open>server\<close> and \<^verbatim>\<open>sessions\<close> it uses.

  The handler is an \<^verbatim>\<open>async\<close> function. JavaScript runs the code between two
  \<^verbatim>\<open>await\<close>s of one invocation to completion before anything else runs, so the
  handler is cut at its \<^verbatim>\<open>await\<close>s into segments and each segment is one atomic
  step of the model. Other invocations and \<^verbatim>\<open>close\<close> events interleave between the
  segments in any order.

  The SDK objects (\<^verbatim>\<open>McpServer\<close>, \<^verbatim>\<open>StreamableHTTPServerTransport\<close>) are outside the
  repository. The model records the calls made on them and takes the way each awaited
  promise settles as part of the event that resumes the handler.
\<close>

subsection \<open>Data\<close>

text \<open>Objects are referred to by their address in a store: the position in a list.\<close>

type_synonym transport_ref = nat
type_synonym res_ref = nat
type_synonym engine_ref = nat

text \<open>\<^verbatim>\<open>const server = new McpServer({...})\<close>: the only engine instance the module creates.\<close>

definition server :: engine_ref where
  "server = 0"

text \<open>
  A \<^verbatim>\<open>StreamableHTTPServerTransport\<close>: the two options it is constructed with
  (\<^verbatim>\<open>sessionIdGenerator: undefined\<close> is \<open>None\<close>, \<^verbatim>\<open>() => sessionId\<close> is \<open>Some sessionId\<close>),
  how many times \<^verbatim>\<open>close()\<close> was called on it, and the engine whose
  \<^verbatim>\<open>connect(transport)\<close> has completed.
\<close>

record StreamableHTTPServerTransport =
  sessionIdGenerator :: "string option"
  enableJsonResponse :: bool
  close_calls :: nat
  connected :: "engine_ref option"

text \<open>\<^verbatim>\<open>type SessionRecord = { transport: StreamableHTTPServerTransport }\<close>\<close>

record SessionRecord =
  transport :: transport_ref

text \<open>The two closures the handler passes to \<^verbatim>\<open>res.on("close", ...)\<close>.\<close>

datatype listener =
    CloseTransport transport_ref
  | CloseAndDelete transport_ref string

text \<open>How an awaited promise settles.\<close>

datatype settle = Fulfilled | Threw string

text \<open>
  Where one invocation of the handler stands: running a segment, suspended at one of its
  three \<^verbatim>\<open>await\<close>s, or ended, by returning or by an exception that rejects its promise.
\<close>

datatype pc =
    Running
  | AwaitConnectStateless transport_ref
  | AwaitConnectStateful string transport_ref
  | AwaitHandleRequest transport_ref
  | Returned
  | Rejected string

text \<open>One request/response pair: the listeners on \<^verbatim>\<open>res\<close> and the handler's position.\<close>

record response =
  listeners :: "listener list"
  handler :: pc

text \<open>The calls the handler and the listeners make, in the order they happen.\<close>

datatype effect =
    NewTransport transport_ref
  | SessionsSet string transport_ref
  | SessionsDelete string
  | ServerConnect engine_ref transport_ref
  | ResOnClose res_ref listener
  | TransportClose transport_ref
  | TransportHandleRequest transport_ref res_ref

text \<open>
  The process: \<^verbatim>\<open>const sessions = new Map<string, SessionRecord>()\<close> in insertion order,
  the transports created so far, the request/response pairs seen so far, and the trace.
  The handler never writes on \<^verbatim>\<open>res\<close> itself: it hands \<^verbatim>\<open>res\<close> to \<^verbatim>\<open>handleRequest\<close>, and what
  the transport writes there is the transport's business. The one other writer is the
  web framework, when the handler fails; \<open>replies\<close> holds what it has sent, as pairs of
  the response and the status.
\<close>

record mux =
  sessions :: "(string \<times> SessionRecord) list"
  transports :: "StreamableHTTPServerTransport list"
  responses :: "response list"
  trace :: "effect list"
  replies :: "(res_ref \<times> nat) list"

definition init_mux :: mux where
  "init_mux = \<lparr>sessions = [], transports = [], responses = [], trace = [], replies = []\<rparr>"

subsection \<open>The JavaScript \<^verbatim>\<open>Map\<close>\<close>

fun map_get :: "('k \<times> 'v) list \<Rightarrow> 'k \<Rightarrow> 'v option" where
  "map_get [] k = None"
| "map_get ((k', v) # m) k = (if k' = k then Some v else map_get m k)"

text \<open>\<^verbatim>\<open>set\<close> overwrites the value of a key that is present and appends a new key.\<close>

fun map_set :: "('k \<times> 'v) list \<Rightarrow> 'k \<Rightarrow> 'v \<Rightarrow> ('k \<times> 'v) list" where
  "map_set [] k v = [(k, v)]"
| "map_set ((k', v') # m) k v = (if k' = k then (k, v) # m else (k', v') # map_set m k v)"

fun map_delete :: "('k \<times> 'v) list \<Rightarrow> 'k \<Rightarrow> ('k \<times> 'v) list" where
  "map_delete [] k = []"
| "map_delete ((k', v) # m) k = (if k' = k then m else (k', v) # map_delete m k)"

subsection \<open>The handler\<close>

text \<open>
  \<^verbatim>\<open>const sessionId = req.query.sessionId as string | undefined; if (!sessionId)\<close>:
  \<^verbatim>\<open>undefined\<close> and the empty string are the falsy values of that type.
\<close>

fun falsy :: "string option \<Rightarrow> bool" where
  "falsy None = True"
| "falsy (Some v) = (v = [])"

text \<open>
  \<^verbatim>\<open>new StreamableHTTPServerTransport({ sessionIdGenerator, enableJsonResponse: true })\<close>:
  the object as the constructor leaves it, and its allocation at the next free address.
\<close>

definition construct :: "string option \<Rightarrow> StreamableHTTPServerTransport" where
  "construct gen =
     \<lparr>sessionIdGenerator = gen, enableJsonResponse = True, close_calls = 0, connected = None\<rparr>"

definition new_transport :: "string option \<Rightarrow> mux \<Rightarrow> mux" where
  "new_transport gen s =
     s\<lparr>transports := transports s @ [construct gen],
       trace := trace s @ [NewTransport (length (transports s))]\<rparr>"

definition sessions_set :: "string \<Rightarrow> transport_ref \<Rightarrow> mux \<Rightarrow> mux" where
  "sessions_set sessionId t s =
     s\<lparr>sessions := map_set (sessions s) sessionId \<lparr>transport = t\<rparr>,
       trace := trace s @ [SessionsSet sessionId t]\<rparr>"

definition sessions_delete :: "string \<Rightarrow> mux \<Rightarrow> mux" where
  "sessions_delete sessionId s =
     s\<lparr>sessions := map_delete (sessions s) sessionId,
       trace := trace s @ [SessionsDelete sessionId]\<rparr>"

definition res_on_close :: "res_ref \<Rightarrow> listener \<Rightarrow> mux \<Rightarrow> mux" where
  "res_on_close r l s =
     s\<lparr>responses := (responses s)[r := (responses s ! r)\<lparr>listeners := listeners (responses s ! r) @ [l]\<rparr>],
       trace := trace s @ [ResOnClose r l]\<rparr>"

definition server_connect :: "transport_ref \<Rightarrow> mux \<Rightarrow> mux" where
  "server_connect t s = s\<lparr>trace := trace s @ [ServerConnect server t]\<rparr>"

definition connect_done :: "transport_ref \<Rightarrow> mux \<Rightarrow> mux" where
  "connect_done t s =
     s\<lparr>transports := (transports s)[t := (transports s ! t)\<lparr>connected := Some server\<rparr>]\<rparr>"

definition transport_handleRequest :: "transport_ref \<Rightarrow> res_ref \<Rightarrow> mux \<Rightarrow> mux" where
  "transport_handleRequest t r s = s\<lparr>trace := trace s @ [TransportHandleRequest t r]\<rparr>"

definition transport_close :: "transport_ref \<Rightarrow> mux \<Rightarrow> mux" where
  "transport_close t s =
     s\<lparr>transports := (transports s)[t := (transports s ! t)\<lparr>close_calls := Suc (close_calls (transports s ! t))\<rparr>],
       trace := trace s @ [TransportClose t]\<rparr>"

definition set_handler :: "res_ref \<Rightarrow> pc \<Rightarrow> mux \<Rightarrow> mux" where
  "set_handler r p s = s\<lparr>responses := (responses s)[r := (responses s ! r)\<lparr>handler := p\<rparr>]\<rparr>"

text \<open>
  Modelled from the spec: the web framework that calls the handler is not part of the
  repository. The handler has no \<^verbatim>\<open>try\<close>, so an awaited promise that rejects rejects the
  promise of the handler; what the framework then does is taken from the specification:
  the failure is \<^emph>\<open>surfaced as a 5xx-equivalent response\<close> for that request, and \<^emph>\<open>every
  failure mode returns a well-formed HTTP error response\<close>. The status 500 stands for it.
\<close>

definition framework_error :: "res_ref \<Rightarrow> mux \<Rightarrow> mux" where
  "framework_error r s = s\<lparr>replies := replies s @ [(r, 500)]\<rparr>"

text \<open>An exception \<open>e\<close> leaves the handler: its promise is rejected and the framework takes over.\<close>

definition reject :: "res_ref \<Rightarrow> string \<Rightarrow> mux \<Rightarrow> mux" where
  "reject r e s = framework_error r (set_handler r (Rejected e) s)"

text \<open>
  The first segment: from the entry of the handler to its first \<^verbatim>\<open>await\<close>. The new
  request/response pair gets the next free position \<open>r\<close>.
\<close>

definition handler_entry :: "string option \<Rightarrow> mux \<Rightarrow> mux" where
  "handler_entry sessionId s0 =
     (let r = length (responses s0);
          s = s0\<lparr>responses := responses s0 @ [\<lparr>listeners = [], handler = Running\<rparr>]\<rparr>
      in if falsy sessionId then
           (let t = length (transports s);
                s = new_transport None s;
                s = res_on_close r (CloseTransport t) s;
                s = server_connect t s
            in set_handler r (AwaitConnectStateless t) s)
         else
           (let sid = the sessionId in
            case map_get (sessions s) sid of
              None \<Rightarrow>
                (let t = length (transports s);
                     s = new_transport (Some sid) s;
                     s = sessions_set sid t s;
                     s = server_connect t s
                 in set_handler r (AwaitConnectStateful sid t) s)
            | Some session \<Rightarrow>
                (let s = transport_handleRequest (transport session) r s
                 in set_handler r (AwaitHandleRequest (transport session)) s)))"

text \<open>The segment after \<^verbatim>\<open>await server.connect(transport)\<close>, in either branch.\<close>

definition after_connect :: "res_ref \<Rightarrow> settle \<Rightarrow> mux \<Rightarrow> mux" where
  "after_connect r outcome s =
     (if r < length (responses s) then
        (case handler (responses s ! r) of
           AwaitConnectStateless t \<Rightarrow>
             (case outcome of
                Threw e \<Rightarrow> reject r e s
              | Fulfilled \<Rightarrow>
                  (let s = connect_done t s;
                       s = transport_handleRequest t r s
                   in set_handler r (AwaitHandleRequest t) s))
         | AwaitConnectStateful sid t \<Rightarrow>
             (case outcome of
                Threw e \<Rightarrow> reject r e s
              | Fulfilled \<Rightarrow>
                  (let s = connect_done t s;
                       s = res_on_close r (CloseAndDelete t sid) s;
                       s = transport_handleRequest t r s
                   in set_handler r (AwaitHandleRequest t) s))
         | _ \<Rightarrow> s)
      else s)"

text \<open>The segment after \<^verbatim>\<open>await transport.handleRequest(req, res, req.body)\<close>.\<close>

definition after_handleRequest :: "res_ref \<Rightarrow> settle \<Rightarrow> mux \<Rightarrow> mux" where
  "after_handleRequest r outcome s =
     (if r < length (responses s) then
        (case handler (responses s ! r) of
           AwaitHandleRequest t \<Rightarrow>
             (case outcome of
                Threw e \<Rightarrow> reject r e s
              | Fulfilled \<Rightarrow> set_handler r Returned s)
         | _ \<Rightarrow> s)
      else s)"

text \<open>The bodies of the two listeners.\<close>

fun run_listener :: "listener \<Rightarrow> mux \<Rightarrow> mux" where
  "run_listener (CloseTransport t) s = transport_close t s"
| "run_listener (CloseAndDelete t sessionId) s = sessions_delete sessionId (transport_close t s)"

text \<open>\<^verbatim>\<open>res\<close> emits \<^verbatim>\<open>close\<close>: every listener registered with \<^verbatim>\<open>on\<close> runs, in order.\<close>

definition emit_close :: "res_ref \<Rightarrow> mux \<Rightarrow> mux" where
  "emit_close r s =
     (if r < length (responses s)
      then foldl (\<lambda>s l. run_listener l s) s (listeners (responses s ! r))
      else s)"

subsection \<open>Schedules\<close>

text \<open>
  What the event loop runs next: the first segment of the handler for a request that
  arrives, the next segment of a suspended invocation whose awaited promise settles, or
  the listeners of a response that emits \<^verbatim>\<open>close\<close>. An event that does not apply (there is
  no such response, or its handler is not suspended at that \<^verbatim>\<open>await\<close>) changes nothing.
\<close>

datatype event =
    Request "string option"
  | ConnectSettled res_ref settle
  | HandleRequestSettled res_ref settle
  | Close res_ref

fun step :: "event \<Rightarrow> mux \<Rightarrow> mux" where
  "step (Request sessionId) s = handler_entry sessionId s"
| "step (ConnectSettled r outcome) s = after_connect r outcome s"
| "step (HandleRequestSettled r outcome) s = after_handleRequest r outcome s"
| "step (Close r) s = emit_close r s"

definition run :: "event list \<Rightarrow> mux \<Rightarrow> mux" where
  "run evs s = foldl (\<lambda>s e. step e s) s evs"

text \<open>
  One invocation of the handler run from entry to return with nothing in between:
  \<open>c\<close> is how \<^verbatim>\<open>server.connect\<close> settles and \<open>h\<close> how \<^verbatim>\<open>handleRequest\<close> settles, each
  used only if the invocation reaches that \<^verbatim>\<open>await\<close>.
\<close>

definition handle :: "string option \<Rightarrow> settle \<Rightarrow> settle \<Rightarrow> mux \<Rightarrow> mux" where
  "handle sessionId c h s =
     (let r = length (responses s)
      in after_handleRequest r h (after_connect r c (handler_entry sessionId s)))"

text \<open>
  A sequence of requests, each handled to the end before the next arrives. An element
  is the \<^verbatim>\<open>sessionId\<close> of the request and the two outcomes of \<open>handle\<close>.
\<close>

fun handle_seq :: "(string option \<times> settle \<times> settle) list \<Rightarrow> mux \<Rightarrow> mux" where
  "handle_seq [] s = s"
| "handle_seq ((sessionId, c, h) # reqs) s = handle_seq reqs (handle sessionId c h s)"

text \<open>
  The listeners whose body deletes \<open>sessionId\<close> from \<^verbatim>\<open>sessions\<close>, the events that run such
  a listener in a given state, and the schedules that, run from a given state, contain
  no such event.
\<close>

fun deletes :: "string \<Rightarrow> listener \<Rightarrow> bool" where
  "deletes sessionId (CloseAndDelete t sessionId') = (sessionId' = sessionId)"
| "deletes sessionId (CloseTransport t) = False"

fun closes_session :: "string \<Rightarrow> event \<Rightarrow> mux \<Rightarrow> bool" where
  "closes_session sessionId (Close r) s =
     (r < length (responses s) \<and> list_ex (deletes sessionId) (listeners (responses s ! r)))"
| "closes_session sessionId ev s = False"

fun session_kept :: "string \<Rightarrow> event list \<Rightarrow> mux \<Rightarrow> bool" where
  "session_kept sessionId [] s = True"
| "session_kept sessionId (ev # evs) s =
     (\<not> closes_session sessionId ev s \<and> session_kept sessionId evs (step ev s))"

subsection \<open>Auxiliary notions for the proofs\<close>

text \<open>The session identities the transports created so far were constructed with.\<close>

definition identities :: "mux \<Rightarrow> string option list" where
  "identities s = map sessionIdGenerator (transports s)"

text \<open>
  The shape of the listener list of one response, given the transports allocated: at
  most one listener, on an allocated transport constructed the way its branch does.
\<close>

fun listeners_ok :: "StreamableHTTPServerTransport list \<Rightarrow> listener list \<Rightarrow> bool" where
  "listeners_ok ts [] = True"
| "listeners_ok ts [CloseTransport t] = (t < length ts \<and> sessionIdGenerator (ts ! t) = None)"
| "listeners_ok ts [CloseAndDelete t sid] =
     (t < length ts \<and> sid \<noteq> [] \<and> sessionIdGenerator (ts ! t) = Some sid)"
| "listeners_ok ts (l # l' # ls) = False"

text \<open>One entry of \<^verbatim>\<open>sessions\<close>, given the transports allocated.\<close>

definition entry_ok :: "StreamableHTTPServerTransport list \<Rightarrow> string \<times> SessionRecord \<Rightarrow> bool" where
  "entry_ok ts e =
     (fst e \<noteq> [] \<and> transport (snd e) < length ts \<and>
      sessionIdGenerator (ts ! transport (snd e)) = Some (fst e) \<and>
      close_calls (ts ! transport (snd e)) = 0)"

text \<open>
  One response, given the transports allocated: while the stateful branch waits for
  \<^verbatim>\<open>server.connect\<close> it has not registered its listener yet.
\<close>

definition response_ok :: "StreamableHTTPServerTransport list \<Rightarrow> response \<Rightarrow> bool" where
  "response_ok ts resp =
     (listeners_ok ts (listeners resp) \<and>
      (case handler resp of
         AwaitConnectStateful sid t \<Rightarrow>
           listeners resp = [] \<and> t < length ts \<and> sid \<noteq> [] \<and> sessionIdGenerator (ts ! t) = Some sid
       | _ \<Rightarrow> True))"

text \<open>
  What holds of every state the process can reach: the keys of \<^verbatim>\<open>sessions\<close> are
  pairwise different and truthy, every entry refers to an allocated transport that was
  constructed for that key and has not been closed, and every response carries at most
  one listener.
\<close>

definition wf :: "mux \<Rightarrow> bool" where
  "wf s =
     (distinct (map fst (sessions s)) \<and>
      list_all (entry_ok (transports s)) (sessions s) \<and>
      list_all (response_ok (transports s)) (responses s))"

section \<open>Basic facts\<close>


lemmas op_defs = new_transport_def sessions_set_def sessions_delete_def res_on_close_def
  server_connect_def connect_done_def transport_handleRequest_def transport_close_def set_handler_def
  reject_def framework_error_def

subsection \<open>The Map operations\<close>

lemma map_get_None_iff: "map_get m k = None \<longleftrightarrow> k \<notin> fst ` set m"
  by (induction m) force+

lemma map_get_Some_mem: "map_get m k = Some v \<Longrightarrow> (k, v) \<in> set m"
  by (induction m) (auto split: if_splits)

lemma map_get_distinct: "distinct (map fst m) \<Longrightarrow> (k, v) \<in> set m \<Longrightarrow> map_get m k = Some v"
  by (induction m) (auto simp: rev_image_eqI)

lemma map_set_absent: "map_get m k = None \<Longrightarrow> map_set m k v = m @ [(k, v)]"
  by (induction m) (auto split: if_splits)

lemma map_get_map_set: "map_get (map_set m k v) k' = (if k' = k then Some v else map_get m k')"
  by (induction m) auto

lemma map_delete_absent: "map_get m k = None \<Longrightarrow> map_delete m k = m"
  by (induction m) (auto split: if_splits)

lemma set_map_delete: "set (map_delete m k) \<subseteq> set m"
  by (induction m) (auto split: if_splits)

lemma distinct_map_delete: "distinct (map fst m) \<Longrightarrow> distinct (map fst (map_delete m k))"
  using set_map_delete by (induction m) fastforce+

lemma map_get_map_delete:
  "distinct (map fst m) \<Longrightarrow> map_get (map_delete m k) k' = (if k' = k then None else map_get m k')"
proof (induction m)
  case Nil
  then show ?case by simp
next
  case (Cons p m)
  obtain a b where p: "p = (a, b)" by (cases p)
  from Cons.prems p have "map_get m a = None"
    by (simp add: map_get_None_iff)
  with Cons p show ?case by auto
qed

lemma update_field_map: "(map f xs)[i := f (xs ! i)] = map f xs"
  by (cases "i < length xs") (simp_all add: list_update_same_conv list_update_beyond)

subsection \<open>The first segment, branch by branch\<close>

lemma handler_entry_stateless:
  assumes "falsy q"
  shows "handler_entry q s =
    s\<lparr>transports := transports s @ [construct None],
      responses := responses s @
        [\<lparr>listeners = [CloseTransport (length (transports s))],
          handler = AwaitConnectStateless (length (transports s))\<rparr>],
      trace := trace s @
        [NewTransport (length (transports s)),
         ResOnClose (length (responses s)) (CloseTransport (length (transports s))),
         ServerConnect server (length (transports s))]\<rparr>"
  using assms by (simp add: handler_entry_def op_defs Let_def)

lemma handler_entry_create:
  assumes "sid \<noteq> []" "map_get (sessions s) sid = None"
  shows "handler_entry (Some sid) s =
    s\<lparr>sessions := sessions s @ [(sid, \<lparr>transport = length (transports s)\<rparr>)],
      transports := transports s @ [construct (Some sid)],
      responses := responses s @
        [\<lparr>listeners = [], handler = AwaitConnectStateful sid (length (transports s))\<rparr>],
      trace := trace s @
        [NewTransport (length (transports s)),
         SessionsSet sid (length (transports s)),
         ServerConnect server (length (transports s))]\<rparr>"
  using assms by (simp add: handler_entry_def op_defs Let_def map_set_absent)

lemma handler_entry_reuse:
  assumes "sid \<noteq> []" "map_get (sessions s) sid = Some session"
  shows "handler_entry (Some sid) s =
    s\<lparr>responses := responses s @
        [\<lparr>listeners = [], handler = AwaitHandleRequest (transport session)\<rparr>],
      trace := trace s @ [TransportHandleRequest (transport session) (length (responses s))]\<rparr>"
  using assms by (simp add: handler_entry_def op_defs Let_def)

text \<open>The three branches cover every request.\<close>

lemma handler_entry_cases:
  obtains (stateless) "falsy q"
  | (create) sid where "q = Some sid" "sid \<noteq> []" "map_get (sessions s) sid = None"
  | (reuse) sid session where "q = Some sid" "sid \<noteq> []" "map_get (sessions s) sid = Some session"
  by (cases q; cases "map_get (sessions s) (the q)") auto

subsection \<open>The later segments\<close>

lemma after_connect_stateless:
  assumes "r < length (responses s)" "handler (responses s ! r) = AwaitConnectStateless t"
  shows "after_connect r Fulfilled s =
      s\<lparr>transports := (transports s)[t := (transports s ! t)\<lparr>connected := Some server\<rparr>],
        responses := (responses s)[r := (responses s ! r)\<lparr>handler := AwaitHandleRequest t\<rparr>],
        trace := trace s @ [TransportHandleRequest t r]\<rparr>"
    and "after_connect r (Threw e) s =
      s\<lparr>responses := (responses s)[r := (responses s ! r)\<lparr>handler := Rejected e\<rparr>],
        replies := replies s @ [(r, 500)]\<rparr>"
  using assms by (simp_all add: after_connect_def op_defs Let_def)

lemma after_connect_stateful:
  assumes "r < length (responses s)" "handler (responses s ! r) = AwaitConnectStateful sid t"
  shows "after_connect r Fulfilled s =
      s\<lparr>transports := (transports s)[t := (transports s ! t)\<lparr>connected := Some server\<rparr>],
        responses := (responses s)[r := (responses s ! r)
           \<lparr>listeners := listeners (responses s ! r) @ [CloseAndDelete t sid],
            handler := AwaitHandleRequest t\<rparr>],
        trace := trace s @ [ResOnClose r (CloseAndDelete t sid), TransportHandleRequest t r]\<rparr>"
    and "after_connect r (Threw e) s =
      s\<lparr>responses := (responses s)[r := (responses s ! r)\<lparr>handler := Rejected e\<rparr>],
        replies := replies s @ [(r, 500)]\<rparr>"
  using assms by (simp_all add: after_connect_def op_defs Let_def)

lemma after_connect_idle:
  assumes "r \<ge> length (responses s) \<or> (\<exists>t. handler (responses s ! r) = AwaitHandleRequest t)
     \<or> handler (responses s ! r) = Returned \<or> (\<exists>e. handler (responses s ! r) = Rejected e)
     \<or> handler (responses s ! r) = Running"
  shows "after_connect r c s = s"
  using assms by (auto simp add: after_connect_def)

lemma after_handleRequest_await:
  assumes "r < length (responses s)" "handler (responses s ! r) = AwaitHandleRequest t"
  shows "after_handleRequest r Fulfilled s =
      s\<lparr>responses := (responses s)[r := (responses s ! r)\<lparr>handler := Returned\<rparr>]\<rparr>"
    and "after_handleRequest r (Threw e) s =
      s\<lparr>responses := (responses s)[r := (responses s ! r)\<lparr>handler := Rejected e\<rparr>],
        replies := replies s @ [(r, 500)]\<rparr>"
  using assms by (simp_all add: after_handleRequest_def op_defs)

lemma after_handleRequest_frame:
  "sessions (after_handleRequest r h s) = sessions s"
  "transports (after_handleRequest r h s) = transports s"
  "trace (after_handleRequest r h s) = trace s"
  "length (responses (after_handleRequest r h s)) = length (responses s)"
  "listeners (responses (after_handleRequest r h s) ! r') = listeners (responses s ! r')"
  by (auto simp add: after_handleRequest_def op_defs nth_list_update split: pc.splits settle.splits)

lemma after_connect_frame:
  "sessions (after_connect r c s) = sessions s"
  "length (transports (after_connect r c s)) = length (transports s)"
  "length (responses (after_connect r c s)) = length (responses s)"
  "identities (after_connect r c s) = identities s"
  by (auto simp add: after_connect_def op_defs Let_def identities_def map_update update_field_map
        split: pc.splits settle.splits)


subsection \<open>Reachable states are well-formed\<close>

lemma listeners_ok_mono:
  assumes "listeners_ok ts ls" "length ts \<le> length ts'"
    "\<And>i. i < length ts \<Longrightarrow> sessionIdGenerator (ts' ! i) = sessionIdGenerator (ts ! i)"
  shows "listeners_ok ts' ls"
  using assms by (induction ts ls rule: listeners_ok.induct) auto

lemma response_ok_mono:
  assumes "response_ok ts resp" "length ts \<le> length ts'"
    "\<And>i. i < length ts \<Longrightarrow> sessionIdGenerator (ts' ! i) = sessionIdGenerator (ts ! i)"
  shows "response_ok ts' resp"
  using assms listeners_ok_mono [of ts "listeners resp" ts']
  by (auto simp: response_ok_def split: pc.splits)

lemma entry_ok_mono:
  assumes "entry_ok ts e" "length ts \<le> length ts'"
    "\<And>i. i < length ts \<Longrightarrow> sessionIdGenerator (ts' ! i) = sessionIdGenerator (ts ! i)"
    "close_calls (ts' ! transport (snd e)) = close_calls (ts ! transport (snd e))"
  shows "entry_ok ts' e"
  using assms by (auto simp: entry_ok_def)

lemma wf_init: "wf init_mux"
  by (simp add: wf_def init_mux_def)

lemma wf_handler_entry:
  assumes "wf s"
  shows "wf (handler_entry q s)"
proof (cases rule: handler_entry_cases [where q = q and s = s])
  case stateless
  have ent: "entry_ok (transports s @ [construct None]) e" if "entry_ok (transports s) e" for e
    using that by (auto simp: nth_append entry_ok_def)
  have resp: "response_ok (transports s @ [construct None]) x" if "response_ok (transports s) x" for x
    using that by (rule response_ok_mono) (auto simp: nth_append)
  show ?thesis
    using assms ent resp
    by (auto simp: handler_entry_stateless [OF stateless] wf_def list_all_iff
        response_ok_def construct_def)
next
  case (create sid)
  have ent: "entry_ok (transports s @ [construct (Some sid)]) e" if "entry_ok (transports s) e" for e
    using that by (auto simp: nth_append entry_ok_def)
  have resp: "response_ok (transports s @ [construct (Some sid)]) x" if "response_ok (transports s) x" for x
    using that by (rule response_ok_mono) (auto simp: nth_append)
  have new: "entry_ok (transports s @ [construct (Some sid)]) (sid, \<lparr>transport = length (transports s)\<rparr>)"
    using create by (simp add: entry_ok_def construct_def)
  have absent: "sid \<notin> fst ` set (sessions s)"
    using create by (simp add: map_get_None_iff)
  show ?thesis
    using assms ent resp new absent create
    by (auto simp: handler_entry_create wf_def list_all_iff response_ok_def construct_def)
next
  case (reuse sid session)
  then show ?thesis
    using assms by (auto simp: handler_entry_reuse wf_def list_all_iff response_ok_def)
qed


lemma wf_connect_done:
  assumes "wf s"
  shows "distinct (map fst (sessions s))"
    and "list_all (entry_ok ((transports s)[t := (transports s ! t)\<lparr>connected := c\<rparr>])) (sessions s)"
    and "list_all (response_ok ((transports s)[t := (transports s ! t)\<lparr>connected := c\<rparr>])) (responses s)"
proof -
  let ?ts = "(transports s)[t := (transports s ! t)\<lparr>connected := c\<rparr>]"
  have gen: "sessionIdGenerator (?ts ! i) = sessionIdGenerator (transports s ! i)"
    if "i < length (transports s)" for i
    using that by (cases "t < length (transports s)") (simp_all add: nth_list_update list_update_beyond)
  have cc: "close_calls (?ts ! i) = close_calls (transports s ! i)"
    if "i < length (transports s)" for i
    using that by (cases "t < length (transports s)") (simp_all add: nth_list_update list_update_beyond)
  show "distinct (map fst (sessions s))"
    using assms by (simp add: wf_def)
  show "list_all (entry_ok ?ts) (sessions s)"
    using assms gen cc by (auto simp: wf_def list_all_iff entry_ok_def)
  show "list_all (response_ok ?ts) (responses s)"
    using assms response_ok_mono [where ts = "transports s" and ts' = ?ts] gen
    by (auto simp: wf_def list_all_iff)
qed

lemma response_ok_set_handler:
  assumes "response_ok ts resp" "\<And>sid t. p \<noteq> AwaitConnectStateful sid t"
  shows "response_ok ts (resp\<lparr>handler := p\<rparr>)"
  using assms by (cases p) (auto simp: response_ok_def)

lemma list_all_update:
  assumes "list_all P xs" "i < length xs \<Longrightarrow> P x"
  shows "list_all P (xs[i := x])"
proof (cases "i < length xs")
  case True
  with assms show ?thesis
    using set_update_subset_insert [of xs i x] by (auto simp: list_all_iff)
next
  case False
  with assms show ?thesis by (simp add: list_update_beyond)
qed

lemma wf_after_handleRequest:
  assumes "wf s"
  shows "wf (after_handleRequest r h s)"
proof (cases "r < length (responses s)")
  case False
  with assms show ?thesis by (simp add: after_handleRequest_def)
next
  case True
  with assms have ok: "response_ok (transports s) (responses s ! r)"
    by (simp add: wf_def list_all_length)
  show ?thesis
    using assms True ok
    by (auto simp: after_handleRequest_def set_handler_def reject_def framework_error_def wf_def
        intro!: list_all_update response_ok_set_handler split: pc.splits settle.splits)
qed

lemma wf_after_connect:
  assumes "wf s"
  shows "wf (after_connect r c s)"
proof (cases "r < length (responses s)")
  case False
  with assms show ?thesis by (simp add: after_connect_def)
next
  case True
  with assms have ok: "response_ok (transports s) (responses s ! r)"
    by (simp add: wf_def list_all_length)
  show ?thesis
  proof (cases "handler (responses s ! r)")
    case (AwaitConnectStateless t)
    show ?thesis
    proof (cases c)
      case Fulfilled
      let ?ts = "(transports s)[t := (transports s ! t)\<lparr>connected := Some server\<rparr>]"
      have "response_ok ?ts (responses s ! r)"
        using wf_connect_done(3) [OF assms, where t = t and c = "Some server"] True by (simp add: list_all_length)
      then have "response_ok ?ts ((responses s ! r)\<lparr>handler := AwaitHandleRequest t\<rparr>)"
        by (rule response_ok_set_handler) simp
      then show ?thesis
        using wf_connect_done(1) [OF assms]
          wf_connect_done(2,3) [OF assms, where t = t and c = "Some server"] True AwaitConnectStateless Fulfilled
        by (simp add: after_connect_stateless wf_def list_all_update)
    next
      case (Threw e)
      have "response_ok (transports s) ((responses s ! r)\<lparr>handler := Rejected e\<rparr>)"
        using ok by (rule response_ok_set_handler) simp
      then show ?thesis
        using assms True AwaitConnectStateless Threw
        by (simp add: after_connect_stateless wf_def list_all_update)
    qed
  next
    case (AwaitConnectStateful sid t)
    with ok have pre: "listeners (responses s ! r) = []" "t < length (transports s)" "sid \<noteq> []"
      "sessionIdGenerator (transports s ! t) = Some sid"
      by (simp_all add: response_ok_def)
    show ?thesis
    proof (cases c)
      case Fulfilled
      let ?ts = "(transports s)[t := (transports s ! t)\<lparr>connected := Some server\<rparr>]"
      have "response_ok ?ts ((responses s ! r)
          \<lparr>listeners := listeners (responses s ! r) @ [CloseAndDelete t sid], handler := AwaitHandleRequest t\<rparr>)"
        using pre by (simp add: response_ok_def)
      then show ?thesis
        using wf_connect_done(1) [OF assms]
          wf_connect_done(2,3) [OF assms, where t = t and c = "Some server"] True AwaitConnectStateful Fulfilled
        by (simp add: after_connect_stateful wf_def list_all_update)
    next
      case (Threw e)
      have "response_ok (transports s) ((responses s ! r)\<lparr>handler := Rejected e\<rparr>)"
        using ok by (rule response_ok_set_handler) simp
      then show ?thesis
        using assms True AwaitConnectStateful Threw
        by (simp add: after_connect_stateful wf_def list_all_update)
    qed
  qed (use assms True in \<open>simp_all add: after_connect_def\<close>)
qed


lemma emit_close_none:
  assumes "r \<ge> length (responses s) \<or> listeners (responses s ! r) = []"
  shows "emit_close r s = s"
  using assms by (auto simp: emit_close_def)

lemma emit_close_stateless:
  assumes "r < length (responses s)" "listeners (responses s ! r) = [CloseTransport t]"
  shows "emit_close r s = transport_close t s"
  using assms by (simp add: emit_close_def)

lemma emit_close_stateful:
  assumes "r < length (responses s)" "listeners (responses s ! r) = [CloseAndDelete t sid]"
  shows "emit_close r s = sessions_delete sid (transport_close t s)"
  using assms by (simp add: emit_close_def)

lemma listeners_ok_cases:
  assumes "listeners_ok ts ls"
  obtains (none) "ls = []"
  | (stateless) t where "ls = [CloseTransport t]" "t < length ts" "sessionIdGenerator (ts ! t) = None"
  | (stateful) t sid where "ls = [CloseAndDelete t sid]" "t < length ts" "sid \<noteq> []"
      "sessionIdGenerator (ts ! t) = Some sid"
  using assms by (induction ts ls rule: listeners_ok.induct) auto

lemma wf_transport_close:
  assumes "wf s" "t < length (transports s)"
  shows "list_all (response_ok (transports (transport_close t s))) (responses s)"
    and "list_all (entry_ok (transports (transport_close t s)))
           (filter (\<lambda>e. sessionIdGenerator (transports s ! t) \<noteq> Some (fst e)) (sessions s))"
proof -
  let ?ts = "transports (transport_close t s)"
  have gen: "sessionIdGenerator (?ts ! i) = sessionIdGenerator (transports s ! i)" for i
    using assms(2) by (cases "i = t") (simp_all add: transport_close_def)
  have len: "length ?ts = length (transports s)"
    by (simp add: transport_close_def)
  show "list_all (response_ok ?ts) (responses s)"
    using assms(1) response_ok_mono [where ts = "transports s" and ts' = ?ts] gen len
    by (auto simp: wf_def list_all_iff)
  have "entry_ok ?ts e"
    if "entry_ok (transports s) e" "sessionIdGenerator (transports s ! t) \<noteq> Some (fst e)" for e
  proof -
    from that have "transport (snd e) \<noteq> t"
      by (auto simp: entry_ok_def)
    then have "close_calls (?ts ! transport (snd e)) = close_calls (transports s ! transport (snd e))"
      by (simp add: transport_close_def)
    with that(1) gen len show ?thesis
      by (simp add: entry_ok_def)
  qed
  with assms(1) show "list_all (entry_ok ?ts)
      (filter (\<lambda>e. sessionIdGenerator (transports s ! t) \<noteq> Some (fst e)) (sessions s))"
    by (auto simp: wf_def list_all_iff)
qed

lemma map_delete_distinct_filter:
  "distinct (map fst m) \<Longrightarrow> map_delete m k = filter (\<lambda>e. fst e \<noteq> k) m"
proof (induction m)
  case Nil
  then show ?case by simp
next
  case (Cons p m)
  from Cons.prems have "fst p \<notin> fst ` set m"
    by simp
  then have "\<And>e. e \<in> set m \<Longrightarrow> fst e \<noteq> fst p"
    by (metis imageI)
  then have "filter (\<lambda>e. fst e \<noteq> fst p) m = m"
    by (simp add: filter_True)
  with Cons show ?case by (cases p) auto
qed

lemma wf_emit_close:
  assumes "wf s"
  shows "wf (emit_close r s)"
proof (cases "r < length (responses s)")
  case False
  with assms show ?thesis by (simp add: emit_close_none)
next
  case True
  with assms have "listeners_ok (transports s) (listeners (responses s ! r))"
    by (simp add: wf_def list_all_length response_ok_def)
  then show ?thesis
  proof (cases rule: listeners_ok_cases)
    case none
    with assms show ?thesis by (simp add: emit_close_none)
  next
    case (stateless t)
    have "filter (\<lambda>e. sessionIdGenerator (transports s ! t) \<noteq> Some (fst e)) (sessions s) = sessions s"
      using stateless by (auto intro!: filter_True)
    with wf_transport_close [OF assms stateless(2)] assms show ?thesis
      by (simp add: emit_close_stateless [OF True stateless(1)] wf_def transport_close_def)
  next
    case (stateful t sid)
    have "filter (\<lambda>e. sessionIdGenerator (transports s ! t) \<noteq> Some (fst e)) (sessions s)
        = map_delete (sessions s) sid"
      using stateful assms by (auto simp: map_delete_distinct_filter wf_def intro!: filter_cong)
    with wf_transport_close [OF assms stateful(2)] assms show ?thesis
      by (simp add: emit_close_stateful [OF True stateful(1)] wf_def transport_close_def
          sessions_delete_def distinct_map_delete)
  qed
qed

lemma wf_step: "wf s \<Longrightarrow> wf (step e s)"
  by (cases e) (simp_all add: wf_handler_entry wf_after_connect wf_after_handleRequest wf_emit_close)

lemma run_snoc: "run (evs @ [e]) s = step e (run evs s)"
  by (simp add: run_def)

lemma wf_run: "wf s \<Longrightarrow> wf (run evs s)"
  by (induction evs rule: rev_induct) (simp_all add: run_snoc wf_step, simp add: run_def)

lemma wf_reachable: "wf (run evs init_mux)"
  by (rule wf_run [OF wf_init])


subsection \<open>One invocation from entry to return\<close>

lemma handle_stateless:
  assumes "falsy q"
  shows "handle q c h s =
    s\<lparr>transports := transports s @
        [(construct None)\<lparr>connected := (case c of Fulfilled \<Rightarrow> Some server | Threw e \<Rightarrow> None)\<rparr>],
      responses := responses s @
        [\<lparr>listeners = [CloseTransport (length (transports s))],
          handler = (case c of Threw e \<Rightarrow> Rejected e
                     | Fulfilled \<Rightarrow> (case h of Fulfilled \<Rightarrow> Returned | Threw e \<Rightarrow> Rejected e))\<rparr>],
      trace := trace s @
        [NewTransport (length (transports s)),
         ResOnClose (length (responses s)) (CloseTransport (length (transports s))),
         ServerConnect server (length (transports s))] @
        (case c of Fulfilled \<Rightarrow> [TransportHandleRequest (length (transports s)) (length (responses s))]
         | Threw e \<Rightarrow> []),
      replies := replies s @
        (case c of Threw e \<Rightarrow> [(length (responses s), 500)]
         | Fulfilled \<Rightarrow> (case h of Fulfilled \<Rightarrow> [] | Threw e \<Rightarrow> [(length (responses s), 500)]))\<rparr>"
proof -
  let ?s1 = "handler_entry q s"
  let ?r = "length (responses s)"
  have r: "?r < length (responses ?s1)"
    and pc: "handler (responses ?s1 ! ?r) = AwaitConnectStateless (length (transports s))"
    by (simp_all add: handler_entry_stateless [OF assms])
  show ?thesis
  proof (cases c)
    case Fulfilled
    let ?s2 = "after_connect ?r Fulfilled ?s1"
    have r2: "?r < length (responses ?s2)"
      and pc2: "handler (responses ?s2 ! ?r) = AwaitHandleRequest (length (transports s))"
      by (simp_all add: after_connect_stateless(1) [OF r pc]) (simp_all add: handler_entry_stateless [OF assms])
    show ?thesis
      unfolding handle_def Let_def Fulfilled
      by (cases h; simp add: after_handleRequest_await [OF r2 pc2])
        (simp_all add: after_connect_stateless(1) [OF r pc], simp_all add: handler_entry_stateless [OF assms] construct_def)
  next
    case (Threw e)
    let ?s2 = "after_connect ?r (Threw e) ?s1"
    have idle: "after_handleRequest ?r h ?s2 = ?s2"
      by (simp add: after_handleRequest_def after_connect_stateless(2) [OF r pc])
    show ?thesis
      unfolding handle_def Let_def Threw idle
      by (simp add: after_connect_stateless(2) [OF r pc])
         (simp add: handler_entry_stateless [OF assms] construct_def)
  qed
qed


section \<open>The stateless path\<close>

text \<open>
  C8. A request without a \<^verbatim>\<open>sessionId\<close> creates one transport constructed with no session
  identity, registers on its response, before connecting and before driving, the listener
  that closes that transport, and leaves \<^verbatim>\<open>sessions\<close> as it was. The listener is there
  however \<^verbatim>\<open>server.connect\<close> and \<^verbatim>\<open>handleRequest\<close> settle, so the \<^verbatim>\<open>close\<close> event of the
  response closes the transport also after a failure, and it does not touch \<^verbatim>\<open>sessions\<close>.
\<close>

theorem stateless_request_disposable:
  assumes "falsy q"
  shows "transports (step (Request q) s) = transports s @ [construct None]
    \<and> sessionIdGenerator (transports (step (Request q) s) ! length (transports s)) = None
    \<and> trace (step (Request q) s) = trace s @
          [NewTransport (length (transports s)),
           ResOnClose (length (responses s)) (CloseTransport (length (transports s))),
           ServerConnect server (length (transports s))]
    \<and> sessions (step (Request q) s) = sessions s
    \<and> length (transports (handle q c h s)) = Suc (length (transports s))
    \<and> listeners (responses (handle q c h s) ! length (responses s)) =
          [CloseTransport (length (transports s))]
    \<and> sessions (handle q c h s) = sessions s
    \<and> close_calls (transports (step (Close (length (responses s))) (handle q c h s))
          ! length (transports s)) = 1
    \<and> sessions (step (Close (length (responses s))) (handle q c h s)) = sessions s"
proof -
  let ?s' = "handle q c h s"
  have r: "length (responses s) < length (responses ?s')"
    and l: "listeners (responses ?s' ! length (responses s)) = [CloseTransport (length (transports s))]"
    by (simp_all add: handle_stateless [OF assms])
  have entry: "step (Request q) s = handler_entry q s"
    by simp
  have close: "step (Close (length (responses s))) ?s' = transport_close (length (transports s)) ?s'"
    using emit_close_stateless [OF r l] by simp
  show ?thesis
    unfolding close entry
    by (simp add: handler_entry_stateless [OF assms] transport_close_def)
      (simp add: handle_stateless [OF assms] construct_def)
qed

theorem stateless_request_disposable_witness:
  "falsy None
    \<and> transports (step (Request None) init_mux) = [construct None]
    \<and> sessions (handle None (Threw ''boom'') Fulfilled init_mux) = []
    \<and> listeners (responses (handle None (Threw ''boom'') Fulfilled init_mux) ! 0) = [CloseTransport 0]
    \<and> close_calls (transports (step (Close 0) (handle None (Threw ''boom'') Fulfilled init_mux)) ! 0) = 1"
  using stateless_request_disposable [of None init_mux "Threw ''boom''" Fulfilled]
  by (simp add: init_mux_def)

text \<open>
  C10. A request whose \<^verbatim>\<open>sessionId\<close> is the empty string is handled exactly as a request
  without \<^verbatim>\<open>sessionId\<close>: the same first segment, the same whole invocation, a transport
  with no session identity, and \<^verbatim>\<open>sessions\<close> neither read into a session nor changed.
\<close>

theorem empty_sessionId_is_stateless:
  "step (Request (Some [])) s = step (Request None) s
    \<and> handle (Some []) c h s = handle None c h s
    \<and> transports (step (Request (Some [])) s) = transports s @ [construct None]
    \<and> handler (responses (step (Request (Some [])) s) ! length (responses s)) =
          AwaitConnectStateless (length (transports s))
    \<and> sessions (handle (Some []) c h s) = sessions s"
  by (simp add: handler_entry_stateless handle_stateless)

section \<open>The engine of the stateless path\<close>

text \<open>
  C5, as the specification states it, fails: two requests without \<^verbatim>\<open>sessionId\<close> get two
  transports, and both are connected to the same engine instance.
\<close>

theorem stateless_engine_shared_counterexample:
  "\<not> connected (transports (handle None Fulfilled Fulfilled (handle None Fulfilled Fulfilled init_mux)) ! 0)
     \<noteq> connected (transports (handle None Fulfilled Fulfilled (handle None Fulfilled Fulfilled init_mux)) ! 1)"
  by (simp add: handle_stateless init_mux_def)

text \<open>
  C5, amended. Every request without \<^verbatim>\<open>sessionId\<close> gets a transport of its own, allocated
  at an address no earlier transport has, and the engine connected to it is the one
  \<^verbatim>\<open>server\<close> of the module: of two such requests handled one after the other, the
  transports are different objects and the engine is the same.
\<close>

theorem stateless_own_transport_shared_engine:
  assumes "falsy q" "falsy q'"
  shows "trace (step (Request q) s) = trace s @
          [NewTransport (length (transports s)),
           ResOnClose (length (responses s)) (CloseTransport (length (transports s))),
           ServerConnect server (length (transports s))]
    \<and> transports (handle q Fulfilled h s) =
          transports s @ [(construct None)\<lparr>connected := Some server\<rparr>]
    \<and> transports (handle q' Fulfilled h' (handle q Fulfilled h s)) =
          transports s @ [(construct None)\<lparr>connected := Some server\<rparr>,
                          (construct None)\<lparr>connected := Some server\<rparr>]
    \<and> sessions (handle q' Fulfilled h' (handle q Fulfilled h s)) = sessions s"
  by (simp add: handler_entry_stateless [OF assms(1)] handle_stateless [OF assms(1)]
      handle_stateless [OF assms(2)])

theorem stateless_own_transport_shared_engine_witness:
  "falsy None \<and> falsy (Some [])
    \<and> transports (handle (Some []) Fulfilled Fulfilled (handle None Fulfilled (Threw ''bad'') init_mux)) =
          [(construct None)\<lparr>connected := Some server\<rparr>, (construct None)\<lparr>connected := Some server\<rparr>]"
  using stateless_own_transport_shared_engine
    [of None "Some []" init_mux "Threw ''bad''" Fulfilled]
  by (simp add: init_mux_def)


lemma handle_create:
  assumes "sid \<noteq> []" "map_get (sessions s) sid = None"
  shows "handle (Some sid) c h s =
    s\<lparr>sessions := sessions s @ [(sid, \<lparr>transport = length (transports s)\<rparr>)],
      transports := transports s @
        [(construct (Some sid))\<lparr>connected := (case c of Fulfilled \<Rightarrow> Some server | Threw e \<Rightarrow> None)\<rparr>],
      responses := responses s @
        [\<lparr>listeners = (case c of Fulfilled \<Rightarrow> [CloseAndDelete (length (transports s)) sid]
                       | Threw e \<Rightarrow> []),
          handler = (case c of Threw e \<Rightarrow> Rejected e
                     | Fulfilled \<Rightarrow> (case h of Fulfilled \<Rightarrow> Returned | Threw e \<Rightarrow> Rejected e))\<rparr>],
      trace := trace s @
        [NewTransport (length (transports s)),
         SessionsSet sid (length (transports s)),
         ServerConnect server (length (transports s))] @
        (case c of
           Fulfilled \<Rightarrow> [ResOnClose (length (responses s)) (CloseAndDelete (length (transports s)) sid),
                         TransportHandleRequest (length (transports s)) (length (responses s))]
         | Threw e \<Rightarrow> []),
      replies := replies s @
        (case c of Threw e \<Rightarrow> [(length (responses s), 500)]
         | Fulfilled \<Rightarrow> (case h of Fulfilled \<Rightarrow> [] | Threw e \<Rightarrow> [(length (responses s), 500)]))\<rparr>"
proof -
  let ?s1 = "handler_entry (Some sid) s"
  let ?r = "length (responses s)"
  have r: "?r < length (responses ?s1)"
    and pc: "handler (responses ?s1 ! ?r) = AwaitConnectStateful sid (length (transports s))"
    by (simp_all add: handler_entry_create [OF assms])
  show ?thesis
  proof (cases c)
    case Fulfilled
    let ?s2 = "after_connect ?r Fulfilled ?s1"
    have r2: "?r < length (responses ?s2)"
      and pc2: "handler (responses ?s2 ! ?r) = AwaitHandleRequest (length (transports s))"
      by (simp_all add: after_connect_stateful(1) [OF r pc]) (simp_all add: handler_entry_create [OF assms])
    show ?thesis
      unfolding handle_def Let_def Fulfilled
      by (cases h; simp add: after_handleRequest_await [OF r2 pc2])
        (simp_all add: after_connect_stateful(1) [OF r pc], simp_all add: handler_entry_create [OF assms] construct_def)
  next
    case (Threw e)
    let ?s2 = "after_connect ?r (Threw e) ?s1"
    have idle: "after_handleRequest ?r h ?s2 = ?s2"
      by (simp add: after_handleRequest_def after_connect_stateful(2) [OF r pc])
    show ?thesis
      unfolding handle_def Let_def Threw idle
      by (simp add: after_connect_stateful(2) [OF r pc])
         (simp add: handler_entry_create [OF assms] construct_def)
  qed
qed

lemma handle_reuse:
  assumes "sid \<noteq> []" "map_get (sessions s) sid = Some session"
  shows "handle (Some sid) c h s =
    s\<lparr>responses := responses s @
        [\<lparr>listeners = [],
          handler = (case h of Fulfilled \<Rightarrow> Returned | Threw e \<Rightarrow> Rejected e)\<rparr>],
      trace := trace s @ [TransportHandleRequest (transport session) (length (responses s))],
      replies := replies s @
        (case h of Fulfilled \<Rightarrow> [] | Threw e \<Rightarrow> [(length (responses s), 500)])\<rparr>"
proof -
  let ?s1 = "handler_entry (Some sid) s"
  let ?r = "length (responses s)"
  have r: "?r < length (responses ?s1)"
    and pc: "handler (responses ?s1 ! ?r) = AwaitHandleRequest (transport session)"
    by (simp_all add: handler_entry_reuse [OF assms])
  have idle: "after_connect ?r c ?s1 = ?s1"
    using pc by (intro after_connect_idle) blast
  show ?thesis
    unfolding handle_def Let_def idle
    by (cases h; simp add: after_handleRequest_await [OF r pc])
      (simp_all add: handler_entry_reuse [OF assms])
qed

lemma entries_for_key:
  "distinct (map fst m) \<Longrightarrow>
    length (filter (\<lambda>e. fst e = k) m) = (if map_get m k = None then 0 else 1)"
proof (induction m)
  case Nil
  then show ?case by simp
next
  case (Cons p m)
  obtain a b where p: "p = (a, b)" by (cases p)
  show ?case
  proof (cases "a = k")
    case True
    with Cons.prems p have "map_get m k = None"
      by (simp add: map_get_None_iff)
    with Cons True p show ?thesis by simp
  next
    case False
    with Cons p show ?thesis by simp
  qed
qed

text \<open>What reachability gives about an entry of \<^verbatim>\<open>sessions\<close>.\<close>

lemma reachable_entry:
  assumes "s = run evs init_mux" "map_get (sessions s) sid = Some session"
  shows "sid \<noteq> []" "transport session < length (transports s)"
    "sessionIdGenerator (transports s ! transport session) = Some sid"
    "close_calls (transports s ! transport session) = 0"
    "length (filter (\<lambda>e. fst e = sid) (sessions s)) = 1"
proof -
  have wf: "wf s"
    using assms(1) wf_reachable by simp
  have mem: "(sid, session) \<in> set (sessions s)"
    using assms(2) by (rule map_get_Some_mem)
  with wf have "entry_ok (transports s) (sid, session)"
    by (auto simp: wf_def list_all_iff)
  then show "sid \<noteq> []" "transport session < length (transports s)"
    "sessionIdGenerator (transports s ! transport session) = Some sid"
    "close_calls (transports s ! transport session) = 0"
    by (simp_all add: entry_ok_def)
  have "distinct (map fst (sessions s))"
    using wf by (simp add: wf_def)
  then show "length (filter (\<lambda>e. fst e = sid) (sessions s)) = 1"
    using assms(2) by (simp add: entries_for_key)
qed


lemma map_get_append:
  "map_get (m @ m') k = (case map_get m k of Some v \<Rightarrow> Some v | None \<Rightarrow> map_get m' k)"
  by (induction m) auto

lemma handle_seq_reuse:
  assumes "sid \<noteq> []" "map_get (sessions s) sid = Some session"
  shows "sessions (handle_seq (map (\<lambda>out. (Some sid, out)) outs) s) = sessions s
    \<and> transports (handle_seq (map (\<lambda>out. (Some sid, out)) outs) s) = transports s"
  using assms
proof (induction outs arbitrary: s)
  case Nil
  then show ?case by simp
next
  case (Cons out outs)
  obtain c h where out: "out = (c, h)" by (cases out)
  let ?s1 = "handle (Some sid) c h s"
  have same: "sessions ?s1 = sessions s" "transports ?s1 = transports s"
    by (simp_all add: handle_reuse [OF Cons.prems])
  then have "map_get (sessions ?s1) sid = Some session"
    using Cons.prems by simp
  from Cons.IH [OF Cons.prems(1) this] same out show ?case
    by simp
qed

section \<open>The stateful path\<close>

text \<open>
  C7. When a request carries a \<^verbatim>\<open>sessionId\<close> that \<^verbatim>\<open>sessions\<close> does not hold, the first
  segment of the handler creates the transport, then stores the session under the
  \<^verbatim>\<open>sessionId\<close>, and only then calls \<^verbatim>\<open>server.connect\<close>. While the handler waits for the
  connect to complete the entry is in \<^verbatim>\<open>sessions\<close> and the engine is not yet connected; a
  second request for the same \<^verbatim>\<open>sessionId\<close> arriving then creates no transport, leaves
  \<^verbatim>\<open>sessions\<close> as it is and goes on with the transport of the session in progress.
\<close>

theorem insert_before_bind:
  assumes "sid \<noteq> []" "map_get (sessions s) sid = None"
  shows "trace (step (Request (Some sid)) s) = trace s @
          [NewTransport (length (transports s)),
           SessionsSet sid (length (transports s)),
           ServerConnect server (length (transports s))]
    \<and> map_get (sessions (step (Request (Some sid)) s)) sid = Some \<lparr>transport = length (transports s)\<rparr>
    \<and> handler (responses (step (Request (Some sid)) s) ! length (responses s)) =
          AwaitConnectStateful sid (length (transports s))
    \<and> connected (transports (step (Request (Some sid)) s) ! length (transports s)) = None
    \<and> transports (step (Request (Some sid)) (step (Request (Some sid)) s)) =
          transports (step (Request (Some sid)) s)
    \<and> sessions (step (Request (Some sid)) (step (Request (Some sid)) s)) =
          sessions (step (Request (Some sid)) s)
    \<and> handler (responses (step (Request (Some sid)) (step (Request (Some sid)) s))
          ! Suc (length (responses s))) = AwaitHandleRequest (length (transports s))"
proof -
  let ?s1 = "handler_entry (Some sid) s"
  have found: "map_get (sessions ?s1) sid = Some \<lparr>transport = length (transports s)\<rparr>"
    using assms by (simp add: handler_entry_create map_get_append)
  have len: "length (responses ?s1) = Suc (length (responses s))"
    using assms by (simp add: handler_entry_create)
  show ?thesis
    using found len
    by (simp add: handler_entry_reuse [OF assms(1) found])
      (simp add: handler_entry_create [OF assms] construct_def nth_append)
qed

theorem insert_before_bind_witness:
  "''abc'' \<noteq> [] \<and> map_get (sessions init_mux) ''abc'' = None
    \<and> trace (step (Request (Some ''abc'')) init_mux) =
          [NewTransport 0, SessionsSet ''abc'' 0, ServerConnect server 0]
    \<and> map_get (sessions (step (Request (Some ''abc'')) init_mux)) ''abc'' = Some \<lparr>transport = 0\<rparr>
    \<and> transports (step (Request (Some ''abc'')) (step (Request (Some ''abc'')) init_mux)) =
          transports (step (Request (Some ''abc'')) init_mux)
    \<and> handler (responses (step (Request (Some ''abc'')) (step (Request (Some ''abc'')) init_mux)) ! 1) =
          AwaitHandleRequest 0"
  using insert_before_bind [of "''abc''" init_mux]
  by (simp add: init_mux_def)

text \<open>
  C2. In every reachable state, a request whose \<^verbatim>\<open>sessionId\<close> is in \<^verbatim>\<open>sessions\<close> is handled
  on the transport of that session: no transport is created, \<^verbatim>\<open>server.connect\<close> is not
  called (the only call made is \<^verbatim>\<open>handleRequest\<close> on the existing transport), the store
  of transports and \<^verbatim>\<open>sessions\<close> are unchanged, and \<^verbatim>\<open>sessions\<close> holds exactly one entry for
  the \<^verbatim>\<open>sessionId\<close>. A non-empty sequence of requests sharing a \<^verbatim>\<open>sessionId\<close> that
  \<^verbatim>\<open>sessions\<close> does not hold at its start, handled one after the other with no \<^verbatim>\<open>close\<close>
  event, creates exactly one transport, and \<^verbatim>\<open>sessions\<close> then holds exactly one entry for
  the \<^verbatim>\<open>sessionId\<close>, which refers to that transport.
\<close>

theorem existing_session_reused:
  assumes "s = run evs init_mux"
  shows "(map_get (sessions s) sid = Some session \<longrightarrow>
            transports (handle (Some sid) c h s) = transports s
          \<and> sessions (handle (Some sid) c h s) = sessions s
          \<and> trace (handle (Some sid) c h s) =
                trace s @ [TransportHandleRequest (transport session) (length (responses s))]
          \<and> length (filter (\<lambda>e. fst e = sid) (sessions (handle (Some sid) c h s))) = 1)
    \<and> (sid' \<noteq> [] \<and> map_get (sessions s) sid' = None \<and> outs \<noteq> [] \<longrightarrow>
            length (transports (handle_seq (map (\<lambda>out. (Some sid', out)) outs) s)) =
                Suc (length (transports s))
          \<and> map_get (sessions (handle_seq (map (\<lambda>out. (Some sid', out)) outs) s)) sid' =
                Some \<lparr>transport = length (transports s)\<rparr>
          \<and> length (filter (\<lambda>e. fst e = sid')
                (sessions (handle_seq (map (\<lambda>out. (Some sid', out)) outs) s))) = 1)"
proof (intro conjI impI)
  assume present: "map_get (sessions s) sid = Some session"
  note ent = reachable_entry [OF assms present]
  show "transports (handle (Some sid) c h s) = transports s"
    and "sessions (handle (Some sid) c h s) = sessions s"
    and "trace (handle (Some sid) c h s) =
          trace s @ [TransportHandleRequest (transport session) (length (responses s))]"
    by (simp_all add: handle_reuse [OF ent(1) present])
  show "length (filter (\<lambda>e. fst e = sid) (sessions (handle (Some sid) c h s))) = 1"
    using ent(5) by (simp add: handle_reuse [OF ent(1) present])
next
  assume "sid' \<noteq> [] \<and> map_get (sessions s) sid' = None \<and> outs \<noteq> []"
  then have sid: "sid' \<noteq> []" and absent: "map_get (sessions s) sid' = None" and "outs \<noteq> []"
    by simp_all
  then obtain c h outs' where outs: "outs = (c, h) # outs'"
    by (cases outs) auto
  let ?s1 = "handle (Some sid') c h s"
  let ?s' = "handle_seq (map (\<lambda>out. (Some sid', out)) outs) s"
  have s1: "sessions ?s1 = sessions s @ [(sid', \<lparr>transport = length (transports s)\<rparr>)]"
    "length (transports ?s1) = Suc (length (transports s))"
    by (simp_all add: handle_create [OF sid absent])
  then have found: "map_get (sessions ?s1) sid' = Some \<lparr>transport = length (transports s)\<rparr>"
    using absent by (simp add: map_get_append)
  have rest: "sessions ?s' = sessions ?s1" "transports ?s' = transports ?s1"
    using handle_seq_reuse [OF sid found, of outs'] outs by simp_all
  show "length (transports ?s') = Suc (length (transports s))"
    using rest s1 by simp
  show "map_get (sessions ?s') sid' = Some \<lparr>transport = length (transports s)\<rparr>"
    using rest found by simp
  have "wf s"
    using assms wf_reachable by simp
  then have "distinct (map fst (sessions s))"
    by (simp add: wf_def)
  then have "length (filter (\<lambda>e. fst e = sid') (sessions s)) = 0"
    using absent by (simp add: entries_for_key)
  then show "length (filter (\<lambda>e. fst e = sid') (sessions ?s')) = 1"
    using rest s1 by simp
qed

theorem existing_session_reused_witness:
  "run [Request (Some ''abc''), ConnectSettled 0 Fulfilled] init_mux
      = run [Request (Some ''abc''), ConnectSettled 0 Fulfilled] init_mux
    \<and> map_get (sessions (run [Request (Some ''abc''), ConnectSettled 0 Fulfilled] init_mux)) ''abc''
        = Some \<lparr>transport = 0\<rparr>
    \<and> transports (handle (Some ''abc'') Fulfilled Fulfilled
          (run [Request (Some ''abc''), ConnectSettled 0 Fulfilled] init_mux))
        = transports (run [Request (Some ''abc''), ConnectSettled 0 Fulfilled] init_mux)
    \<and> ''xyz'' \<noteq> []
    \<and> map_get (sessions (run [Request (Some ''abc''), ConnectSettled 0 Fulfilled] init_mux)) ''xyz'' = None
    \<and> [(Fulfilled, Fulfilled), (Fulfilled, Threw ''bad'')] \<noteq> []
    \<and> length (transports (handle_seq
          (map (\<lambda>out. (Some ''xyz'', out)) [(Fulfilled, Fulfilled), (Fulfilled, Threw ''bad'')])
          (run [Request (Some ''abc''), ConnectSettled 0 Fulfilled] init_mux))) = 2"
proof -
  have abc: "map_get (sessions (run [Request (Some ''abc''), ConnectSettled 0 Fulfilled] init_mux)) ''abc''
      = Some \<lparr>transport = 0\<rparr>"
    and xyz: "map_get (sessions (run [Request (Some ''abc''), ConnectSettled 0 Fulfilled] init_mux)) ''xyz'' = None"
    and len: "length (transports (run [Request (Some ''abc''), ConnectSettled 0 Fulfilled] init_mux)) = 1"
    by (simp_all add: run_def init_mux_def handler_entry_def after_connect_def op_defs Let_def)
  show ?thesis
    using abc xyz len
      existing_session_reused [OF refl,
        where evs = "[Request (Some ''abc''), ConnectSettled 0 Fulfilled]" and sid = "''abc''"
          and session = "\<lparr>transport = 0\<rparr>" and c = Fulfilled and h = Fulfilled
          and sid' = "''xyz''" and outs = "[(Fulfilled, Fulfilled), (Fulfilled, Threw ''bad'')]"]
    by simp
qed


section \<open>Failures\<close>

lemma after_connect_close_calls:
  "close_calls (transports (after_connect r c s) ! i) = close_calls (transports s ! i)"
proof -
  have upd: "close_calls ((transports s)[t := (transports s ! t)\<lparr>connected := x\<rparr>] ! i)
      = close_calls (transports s ! i)" for t x
    by (cases "t < length (transports s)"; cases "i = t")
      (simp_all add: list_update_beyond)
  show ?thesis
    by (auto simp: after_connect_def op_defs Let_def upd split: pc.splits settle.splits)
qed

lemma handler_entry_keeps_entry:
  assumes "map_get (sessions s) sid = Some session" "transport session < length (transports s)"
  shows "map_get (sessions (handler_entry q s)) sid = Some session"
    and "close_calls (transports (handler_entry q s) ! transport session) =
         close_calls (transports s ! transport session)"
proof -
  show "map_get (sessions (handler_entry q s)) sid = Some session"
  proof (cases rule: handler_entry_cases [where q = q and s = s])
    case stateless
    with assms show ?thesis by (simp add: handler_entry_stateless)
  next
    case (create sid')
    with assms show ?thesis by (simp add: handler_entry_create map_get_append)
  next
    case (reuse sid' session')
    with assms show ?thesis by (simp add: handler_entry_reuse)
  qed
  show "close_calls (transports (handler_entry q s) ! transport session) =
      close_calls (transports s ! transport session)"
  proof (cases rule: handler_entry_cases [where q = q and s = s])
    case stateless
    with assms show ?thesis by (simp add: handler_entry_stateless nth_append)
  next
    case (create sid')
    with assms show ?thesis by (simp add: handler_entry_create nth_append)
  next
    case (reuse sid' session')
    with assms show ?thesis by (simp add: handler_entry_reuse)
  qed
qed

text \<open>
  C6. In every reachable state with a session under \<^verbatim>\<open>sessionId\<close>: when \<^verbatim>\<open>handleRequest\<close>
  fails for a request of that session, the failure rejects the promise of that request's
  handler, that request is answered with the error response, and no other request is.
  Nothing else happens: \<^verbatim>\<open>sessions\<close> and the transports are unchanged and the session's
  transport has not been closed, and the next request of the session is driven on the
  same transport and returns, with no error response. The failure of any request in
  flight is answered in the same way, on the response of that request, and makes no
  call. However \<^verbatim>\<open>handleRequest\<close> settles for any request in flight, \<^verbatim>\<open>sessions\<close> and the
  transports are unchanged. No event other than a \<^verbatim>\<open>close\<close> removes the entry or closes
  its transport.
\<close>

theorem drive_failure_keeps_session:
  assumes "s = run evs init_mux" "map_get (sessions s) sid = Some session"
  shows "handler (responses (handle (Some sid) c (Threw e) s) ! length (responses s)) = Rejected e
    \<and> replies (handle (Some sid) c (Threw e) s) = replies s @ [(length (responses s), 500)]
    \<and> replies (handle (Some sid) c' Fulfilled (handle (Some sid) c (Threw e) s)) =
          replies (handle (Some sid) c (Threw e) s)
    \<and> (r < length (responses s) \<and> handler (responses s ! r) = AwaitHandleRequest t \<longrightarrow>
          handler (responses (step (HandleRequestSettled r (Threw e)) s) ! r) = Rejected e
        \<and> replies (step (HandleRequestSettled r (Threw e)) s) = replies s @ [(r, 500)]
        \<and> trace (step (HandleRequestSettled r (Threw e)) s) = trace s)
    \<and> sessions (handle (Some sid) c (Threw e) s) = sessions s
    \<and> transports (handle (Some sid) c (Threw e) s) = transports s
    \<and> close_calls (transports (handle (Some sid) c (Threw e) s) ! transport session) = 0
    \<and> trace (handle (Some sid) c' Fulfilled (handle (Some sid) c (Threw e) s)) =
          trace s @ [TransportHandleRequest (transport session) (length (responses s)),
                     TransportHandleRequest (transport session) (Suc (length (responses s)))]
    \<and> handler (responses (handle (Some sid) c' Fulfilled (handle (Some sid) c (Threw e) s))
          ! Suc (length (responses s))) = Returned
    \<and> sessions (step (HandleRequestSettled r h) s) = sessions s
    \<and> transports (step (HandleRequestSettled r h) s) = transports s
    \<and> ((\<forall>r'. ev \<noteq> Close r') \<longrightarrow>
          map_get (sessions (step ev s)) sid = Some session
        \<and> close_calls (transports (step ev s) ! transport session) = 0)"
proof -
  note ent = reachable_entry [OF assms]
  let ?s1 = "handle (Some sid) c (Threw e) s"
  have s1: "?s1 = s\<lparr>responses := responses s @ [\<lparr>listeners = [], handler = Rejected e\<rparr>],
      trace := trace s @ [TransportHandleRequest (transport session) (length (responses s))],
      replies := replies s @ [(length (responses s), 500)]\<rparr>"
    by (simp add: handle_reuse [OF ent(1) assms(2)])
  have present: "map_get (sessions ?s1) sid = Some session"
    using assms(2) by (simp add: s1)
  have first: "handler (responses ?s1 ! length (responses s)) = Rejected e"
    "replies ?s1 = replies s @ [(length (responses s), 500)]"
    "sessions ?s1 = sessions s" "transports ?s1 = transports s"
    "close_calls (transports ?s1 ! transport session) = 0"
    using ent(4) by (simp_all add: s1)
  have "handle (Some sid) c' Fulfilled ?s1 =
      ?s1\<lparr>responses := responses ?s1 @ [\<lparr>listeners = [], handler = Returned\<rparr>],
        trace := trace ?s1 @ [TransportHandleRequest (transport session) (length (responses ?s1))]\<rparr>"
    by (simp add: handle_reuse [OF ent(1) present])
  then have "second": "trace (handle (Some sid) c' Fulfilled ?s1) =
        trace s @ [TransportHandleRequest (transport session) (length (responses s)),
                   TransportHandleRequest (transport session) (Suc (length (responses s)))]"
      "handler (responses (handle (Some sid) c' Fulfilled ?s1) ! Suc (length (responses s))) = Returned"
      "replies (handle (Some sid) c' Fulfilled ?s1) = replies ?s1"
    by (simp_all add: s1 nth_append)
  have flight: "handler (responses (step (HandleRequestSettled r (Threw e)) s) ! r) = Rejected e
        \<and> replies (step (HandleRequestSettled r (Threw e)) s) = replies s @ [(r, 500)]
        \<and> trace (step (HandleRequestSettled r (Threw e)) s) = trace s"
    if "r < length (responses s) \<and> handler (responses s ! r) = AwaitHandleRequest t"
    using that by (simp add: after_handleRequest_await)
  have any: "sessions (step (HandleRequestSettled r h) s) = sessions s"
    "transports (step (HandleRequestSettled r h) s) = transports s"
    by (simp_all add: after_handleRequest_frame)
  have others: "map_get (sessions (step ev s)) sid = Some session
      \<and> close_calls (transports (step ev s) ! transport session) = 0"
    if "\<forall>r'. ev \<noteq> Close r'"
  proof (cases ev)
    case (Request q)
    then show ?thesis
      using handler_entry_keeps_entry [OF assms(2) ent(2)] ent(4) by simp
  next
    case (ConnectSettled r' c'')
    then show ?thesis
      using assms(2) ent(4) by (simp add: after_connect_frame after_connect_close_calls)
  next
    case (HandleRequestSettled r' h')
    then show ?thesis
      using assms(2) ent(4) by (simp add: after_handleRequest_frame)
  next
    case (Close r')
    with that show ?thesis by blast
  qed
  from first "second" flight any others show ?thesis
    by blast
qed

theorem drive_failure_keeps_session_witness:
  "run [Request (Some ''abc''), ConnectSettled 0 Fulfilled] init_mux
      = run [Request (Some ''abc''), ConnectSettled 0 Fulfilled] init_mux
    \<and> map_get (sessions (run [Request (Some ''abc''), ConnectSettled 0 Fulfilled] init_mux)) ''abc''
        = Some \<lparr>transport = 0\<rparr>
    \<and> (\<forall>r'. HandleRequestSettled 0 (Threw ''parse error'') \<noteq> Close r')
    \<and> 0 < length (responses (run [Request (Some ''abc''), ConnectSettled 0 Fulfilled] init_mux))
    \<and> handler (responses (run [Request (Some ''abc''), ConnectSettled 0 Fulfilled] init_mux) ! 0)
        = AwaitHandleRequest 0
    \<and> replies (step (HandleRequestSettled 0 (Threw ''parse error''))
          (run [Request (Some ''abc''), ConnectSettled 0 Fulfilled] init_mux)) = [(0, 500)]
    \<and> handler (responses (handle (Some ''abc'') Fulfilled (Threw ''parse error'')
          (run [Request (Some ''abc''), ConnectSettled 0 Fulfilled] init_mux)) ! 1) = Rejected ''parse error''
    \<and> replies (handle (Some ''abc'') Fulfilled (Threw ''parse error'')
          (run [Request (Some ''abc''), ConnectSettled 0 Fulfilled] init_mux)) = [(1, 500)]
    \<and> sessions (handle (Some ''abc'') Fulfilled (Threw ''parse error'')
          (run [Request (Some ''abc''), ConnectSettled 0 Fulfilled] init_mux))
        = [(''abc'', \<lparr>transport = 0\<rparr>)]
    \<and> map_get (sessions (step (HandleRequestSettled 0 (Threw ''parse error''))
          (run [Request (Some ''abc''), ConnectSettled 0 Fulfilled] init_mux))) ''abc''
        = Some \<lparr>transport = 0\<rparr>"
proof -
  have abc: "sessions (run [Request (Some ''abc''), ConnectSettled 0 Fulfilled] init_mux)
      = [(''abc'', \<lparr>transport = 0\<rparr>)]"
    and len: "length (responses (run [Request (Some ''abc''), ConnectSettled 0 Fulfilled] init_mux)) = 1"
    and pc: "handler (responses (run [Request (Some ''abc''), ConnectSettled 0 Fulfilled] init_mux) ! 0)
        = AwaitHandleRequest 0"
    and rp: "replies (run [Request (Some ''abc''), ConnectSettled 0 Fulfilled] init_mux) = []"
    by (simp_all add: run_def init_mux_def handler_entry_def after_connect_def op_defs Let_def)
  show ?thesis
    using abc len pc rp
      drive_failure_keeps_session [OF refl,
        where evs = "[Request (Some ''abc''), ConnectSettled 0 Fulfilled]" and sid = "''abc''"
          and session = "\<lparr>transport = 0\<rparr>" and c = Fulfilled and e = "''parse error''"
          and c' = Fulfilled and r = 0 and t = 0 and h = "Threw ''parse error''"
          and ev = "HandleRequestSettled 0 (Threw ''parse error'')"]
    by simp
qed

text \<open>
  C4. The claim does not hold of the code. The request that creates the session \<^verbatim>\<open>abc\<close>
  stores the entry, and \<^verbatim>\<open>server.connect\<close> then fails. The request is answered with the
  error response, but the handler ends there, before the line that registers its
  \<^verbatim>\<open>close\<close> listener: the response carries no listener, so its
  \<^verbatim>\<open>close\<close> event removes nothing and closes nothing, the entry stays in \<^verbatim>\<open>sessions\<close> with a
  transport that is neither connected nor closed, and the next request for \<^verbatim>\<open>abc\<close> is driven
  on that transport. The stateless branch registers its listener before it connects:
  there the same failure followed by the \<^verbatim>\<open>close\<close> event closes the transport.
\<close>

theorem bind_failure_leaks_session:
  "handler (responses (handle (Some ''abc'') (Threw ''boom'') Fulfilled init_mux) ! 0) = Rejected ''boom''
    \<and> replies (handle (Some ''abc'') (Threw ''boom'') Fulfilled init_mux) = [(0, 500)]
    \<and> listeners (responses (handle (Some ''abc'') (Threw ''boom'') Fulfilled init_mux) ! 0) = []
    \<and> map_get (sessions (step (Close 0) (handle (Some ''abc'') (Threw ''boom'') Fulfilled init_mux)))
          ''abc'' = Some \<lparr>transport = 0\<rparr>
    \<and> close_calls (transports (step (Close 0)
          (handle (Some ''abc'') (Threw ''boom'') Fulfilled init_mux)) ! 0) = 0
    \<and> connected (transports (step (Close 0)
          (handle (Some ''abc'') (Threw ''boom'') Fulfilled init_mux)) ! 0) = None
    \<and> trace (handle (Some ''abc'') Fulfilled Fulfilled (step (Close 0)
          (handle (Some ''abc'') (Threw ''boom'') Fulfilled init_mux))) =
          [NewTransport 0, SessionsSet ''abc'' 0, ServerConnect server 0, TransportHandleRequest 0 1]
    \<and> listeners (responses (handle None (Threw ''boom'') Fulfilled init_mux) ! 0) = [CloseTransport 0]
    \<and> close_calls (transports (step (Close 0)
          (handle None (Threw ''boom'') Fulfilled init_mux)) ! 0) = 1"
proof -
  let ?s1 = "handle (Some ''abc'') (Threw ''boom'') Fulfilled init_mux"
  have s1: "?s1 =
      \<lparr>sessions = [(''abc'', \<lparr>transport = 0\<rparr>)],
       transports = [construct (Some ''abc'')],
       responses = [\<lparr>listeners = [], handler = Rejected ''boom''\<rparr>],
       trace = [NewTransport 0, SessionsSet ''abc'' 0, ServerConnect server 0],
       replies = [(0, 500)]\<rparr>"
    by (simp add: handle_create init_mux_def construct_def)
  have closed: "step (Close 0) ?s1 = ?s1"
    by (simp add: s1 emit_close_def)
  have again: "trace (handle (Some ''abc'') Fulfilled Fulfilled ?s1) =
      [NewTransport 0, SessionsSet ''abc'' 0, ServerConnect server 0, TransportHandleRequest 0 1]"
    by (simp add: s1 handle_reuse [where session = "\<lparr>transport = 0\<rparr>"])
  let ?s2 = "handle None (Threw ''boom'') Fulfilled init_mux"
  have s2: "?s2 =
      \<lparr>sessions = [],
       transports = [construct None],
       responses = [\<lparr>listeners = [CloseTransport 0], handler = Rejected ''boom''\<rparr>],
       trace = [NewTransport 0, ResOnClose 0 (CloseTransport 0), ServerConnect server 0],
       replies = [(0, 500)]\<rparr>"
    by (simp add: handle_stateless init_mux_def construct_def)
  have sibling: "close_calls (transports (step (Close 0) ?s2) ! 0) = 1"
    by (simp add: s2 emit_close_def transport_close_def construct_def)
  show ?thesis
    unfolding closed using again sibling
    by (simp add: s1) (simp add: s2 construct_def)
qed

section \<open>The registry\<close>

lemma close_stateful_step:
  assumes "wf s" "r < length (responses s)" "listeners (responses s ! r) = [CloseAndDelete t sid]"
  shows "step (Close r) s = sessions_delete sid (transport_close t s)"
    and "t < length (transports s)" and "sid \<noteq> []"
    and "wf (step (Close r) s)"
    and "responses (step (Close r) s) = responses s"
    and "length (transports (step (Close r) s)) = length (transports s)"
    and "close_calls (transports (step (Close r) s) ! t) = Suc (close_calls (transports s ! t))"
    and "sessions (step (Close r) s) = map_delete (sessions s) sid"
    and "map_get (sessions (step (Close r) s)) sid = None"
    and "trace (step (Close r) s) = trace s @ [TransportClose t, SessionsDelete sid]"
proof -
  show eq: "step (Close r) s = sessions_delete sid (transport_close t s)"
    using emit_close_stateful [OF assms(2,3)] by simp
  have "listeners_ok (transports s) (listeners (responses s ! r))"
    using assms(1,2) by (simp add: wf_def list_all_length response_ok_def)
  then show t: "t < length (transports s)" and "sid \<noteq> []"
    using assms(3) by simp_all
  show "wf (step (Close r) s)"
    using assms(1) by (rule wf_step)
  show "responses (step (Close r) s) = responses s"
    and "length (transports (step (Close r) s)) = length (transports s)"
    and "sessions (step (Close r) s) = map_delete (sessions s) sid"
    and "trace (step (Close r) s) = trace s @ [TransportClose t, SessionsDelete sid]"
    unfolding eq by (simp_all add: sessions_delete_def transport_close_def)
  show "close_calls (transports (step (Close r) s) ! t) = Suc (close_calls (transports s ! t))"
    unfolding eq using t by (simp add: sessions_delete_def transport_close_def)
  have "distinct (map fst (sessions s))"
    using assms(1) by (simp add: wf_def)
  then show "map_get (sessions (step (Close r) s)) sid = None"
    unfolding eq by (simp add: sessions_delete_def transport_close_def map_get_map_delete)
qed

lemma close_stateful_repeat:
  assumes "wf s" "r < length (responses s)" "listeners (responses s ! r) = [CloseAndDelete t sid]"
  shows "wf ((step (Close r) ^^ n) s)
    \<and> responses ((step (Close r) ^^ n) s) = responses s
    \<and> close_calls (transports ((step (Close r) ^^ n) s) ! t) = close_calls (transports s ! t) + n
    \<and> (0 < n \<longrightarrow> map_get (sessions ((step (Close r) ^^ n) s)) sid = None)"
proof (induction n)
  case 0
  with assms show ?case by simp
next
  case (Suc n)
  let ?sn = "(step (Close r) ^^ n) s"
  from Suc.IH have wf: "wf ?sn" and resp: "responses ?sn = responses s"
    and cc: "close_calls (transports ?sn ! t) = close_calls (transports s ! t) + n"
    by blast+
  from resp assms(2,3) have r: "r < length (responses ?sn)"
    and l: "listeners (responses ?sn ! r) = [CloseAndDelete t sid]"
    by (simp_all only:)
  note st = close_stateful_step [OF wf r l]
  have unfold: "(step (Close r) ^^ Suc n) s = step (Close r) ?sn"
    by (simp only: funpow.simps comp_apply)
  show ?case
    unfolding unfold using st(4,5,7,9) resp cc by (simp only: add_Suc_right) blast
qed

text \<open>
  C3. In every reachable state the keys of \<^verbatim>\<open>sessions\<close> are pairwise different, so there is
  at most one entry for a \<^verbatim>\<open>sessionId\<close>. An event changes \<^verbatim>\<open>sessions\<close> only in two ways: the
  first segment of a request with a truthy \<^verbatim>\<open>sessionId\<close> that \<^verbatim>\<open>sessions\<close> does not hold
  appends the entry for that \<^verbatim>\<open>sessionId\<close> and the new transport, and the \<^verbatim>\<open>close\<close> of a
  response on which the stateful branch registered its listener deletes the key of that
  listener.
\<close>

theorem registry_changes_only_by_create_and_close:
  assumes "s = run evs init_mux"
  shows "distinct (map fst (sessions s))
    \<and> length (filter (\<lambda>e. fst e = k) (sessions s)) \<le> 1
    \<and> (sessions (step ev s) \<noteq> sessions s \<longrightarrow>
          (\<exists>sid. ev = Request (Some sid) \<and> sid \<noteq> [] \<and> map_get (sessions s) sid = None
             \<and> sessions (step ev s) = sessions s @ [(sid, \<lparr>transport = length (transports s)\<rparr>)])
        \<or> (\<exists>r t sid. ev = Close r \<and> r < length (responses s)
             \<and> listeners (responses s ! r) = [CloseAndDelete t sid]
             \<and> sessions (step ev s) = map_delete (sessions s) sid))"
proof -
  have wf: "wf s"
    using assms wf_reachable by simp
  then have dist: "distinct (map fst (sessions s))"
    by (simp add: wf_def)
  then have one: "length (filter (\<lambda>e. fst e = k) (sessions s)) \<le> 1"
    by (simp add: entries_for_key)
  have changes: "(\<exists>sid. ev = Request (Some sid) \<and> sid \<noteq> [] \<and> map_get (sessions s) sid = None
             \<and> sessions (step ev s) = sessions s @ [(sid, \<lparr>transport = length (transports s)\<rparr>)])
        \<or> (\<exists>r t sid. ev = Close r \<and> r < length (responses s)
             \<and> listeners (responses s ! r) = [CloseAndDelete t sid]
             \<and> sessions (step ev s) = map_delete (sessions s) sid)"
    if neq: "sessions (step ev s) \<noteq> sessions s"
  proof (cases ev)
    case (Request q)
    show ?thesis
    proof (cases rule: handler_entry_cases [where q = q and s = s])
      case stateless
      with neq Request show ?thesis by (simp add: handler_entry_stateless)
    next
      case (create sid)
      with Request show ?thesis by (simp add: handler_entry_create)
    next
      case (reuse sid session)
      with neq Request show ?thesis by (simp add: handler_entry_reuse)
    qed
  next
    case (ConnectSettled r c)
    with neq show ?thesis by (simp add: after_connect_frame)
  next
    case (HandleRequestSettled r h)
    with neq show ?thesis by (simp add: after_handleRequest_frame)
  next
    case (Close r)
    show ?thesis
    proof (cases "r < length (responses s)")
      case False
      with neq Close show ?thesis by (simp add: emit_close_none)
    next
      case True
      with wf have "listeners_ok (transports s) (listeners (responses s ! r))"
        by (simp add: wf_def list_all_length response_ok_def)
      then show ?thesis
      proof (cases rule: listeners_ok_cases)
        case none
        with neq Close show ?thesis by (simp add: emit_close_none)
      next
        case (stateless t)
        with neq Close True show ?thesis
          by (simp add: emit_close_stateless transport_close_def)
      next
        case (stateful t sid)
        with Close True close_stateful_step(8) [OF wf True stateful(1)] show ?thesis
          by simp
      qed
    qed
  qed
  from dist one changes show ?thesis
    by blast
qed

theorem registry_changes_only_by_create_and_close_witness:
  "run [Request (Some ''abc''), ConnectSettled 0 Fulfilled] init_mux
      = run [Request (Some ''abc''), ConnectSettled 0 Fulfilled] init_mux
    \<and> sessions (step (Close 0) (run [Request (Some ''abc''), ConnectSettled 0 Fulfilled] init_mux))
        \<noteq> sessions (run [Request (Some ''abc''), ConnectSettled 0 Fulfilled] init_mux)
    \<and> distinct (map fst (sessions (run [Request (Some ''abc''), ConnectSettled 0 Fulfilled] init_mux)))
    \<and> sessions (step (Close 0) (run [Request (Some ''abc''), ConnectSettled 0 Fulfilled] init_mux))
        = map_delete (sessions (run [Request (Some ''abc''), ConnectSettled 0 Fulfilled] init_mux)) ''abc''"
proof -
  have st: "run [Request (Some ''abc''), ConnectSettled 0 Fulfilled] init_mux =
      \<lparr>sessions = [(''abc'', \<lparr>transport = 0\<rparr>)],
       transports = [(construct (Some ''abc''))\<lparr>connected := Some server\<rparr>],
       responses = [\<lparr>listeners = [CloseAndDelete 0 ''abc''], handler = AwaitHandleRequest 0\<rparr>],
       trace = [NewTransport 0, SessionsSet ''abc'' 0, ServerConnect server 0,
                ResOnClose 0 (CloseAndDelete 0 ''abc''), TransportHandleRequest 0 0],
       replies = []\<rparr>"
    by (simp add: run_def init_mux_def handler_entry_def after_connect_def op_defs Let_def construct_def)
  have cl: "sessions (emit_close 0 (run [Request (Some ''abc''), ConnectSettled 0 Fulfilled] init_mux)) = []"
    and ss: "sessions (run [Request (Some ''abc''), ConnectSettled 0 Fulfilled] init_mux)
        = [(''abc'', \<lparr>transport = 0\<rparr>)]"
    by (simp_all add: st emit_close_def op_defs)
  show ?thesis
    using registry_changes_only_by_create_and_close [OF refl,
        where evs = "[Request (Some ''abc''), ConnectSettled 0 Fulfilled]" and ev = "Close 0"
          and k = "''abc''"]
    by (simp add: cl ss)
qed


section \<open>The end of a session\<close>

text \<open>
  C1, as the specification states it, fails: the listener is registered with \<^verbatim>\<open>on\<close>, so
  it runs at every \<^verbatim>\<open>close\<close> of the response. For the session \<^verbatim>\<open>abc\<close>, created and connected,
  two \<^verbatim>\<open>close\<close> events of its response call \<^verbatim>\<open>close()\<close> on its transport twice.
\<close>

theorem close_twice_counterexample:
  "close_calls (transports
      (run [Request (Some ''abc''), ConnectSettled 0 Fulfilled, Close 0, Close 0] init_mux) ! 0) = 2"
  by (simp add: run_def init_mux_def handler_entry_def after_connect_def emit_close_def op_defs
      Let_def construct_def)

text \<open>
  C1, amended. The request that creates a session registers, once \<^verbatim>\<open>server.connect\<close> has
  completed, one listener on its response. In every reachable state, for every response
  carrying such a listener: a \<^verbatim>\<open>close\<close> of the response calls \<^verbatim>\<open>close()\<close> on the transport
  and then deletes the \<^verbatim>\<open>sessionId\<close> from \<^verbatim>\<open>sessions\<close>, in this order; \<open>n\<close> such events call
  \<^verbatim>\<open>close()\<close> \<open>n\<close> times; after at least one of them \<^verbatim>\<open>sessions\<close> has no entry for the
  \<^verbatim>\<open>sessionId\<close>; and a request carrying the \<^verbatim>\<open>sessionId\<close> after the first one creates a
  new transport, at another address than the closed one, and stores it under the
  \<^verbatim>\<open>sessionId\<close>. No entry of \<^verbatim>\<open>sessions\<close> ever refers to a transport that has been closed.
\<close>

theorem close_listener_closes_then_deletes:
  assumes "s = run evs init_mux" "r < length (responses s)"
    "listeners (responses s ! r) = [CloseAndDelete t sid]"
  shows "trace (step (Close r) s) = trace s @ [TransportClose t, SessionsDelete sid]
    \<and> close_calls (transports ((step (Close r) ^^ n) s) ! t) = close_calls (transports s ! t) + n
    \<and> (0 < n \<longrightarrow> map_get (sessions ((step (Close r) ^^ n) s)) sid = None)
    \<and> transports (step (Request (Some sid)) (step (Close r) s)) =
          transports (step (Close r) s) @ [construct (Some sid)]
    \<and> map_get (sessions (step (Request (Some sid)) (step (Close r) s))) sid =
          Some \<lparr>transport = length (transports s)\<rparr>
    \<and> t < length (transports s)
    \<and> (map_get (sessions s) k = Some session \<longrightarrow>
          close_calls (transports s ! transport session) = 0)
    \<and> (sid' \<noteq> [] \<and> map_get (sessions s) sid' = None \<longrightarrow>
          listeners (responses (handle (Some sid') Fulfilled h s) ! length (responses s)) =
            [CloseAndDelete (length (transports s)) sid'])"
proof -
  have wf: "wf s"
    using assms(1) wf_reachable by simp
  have open_entry: "close_calls (transports s ! transport session) = 0"
    if "map_get (sessions s) k = Some session"
    using reachable_entry(4) [OF assms(1) that] .
  note st = close_stateful_step [OF wf assms(2,3)]
  note rep = close_stateful_repeat [OF wf assms(2,3), of n]
  let ?s1 = "step (Close r) s"
  have again: "handler_entry (Some sid) ?s1 =
      ?s1\<lparr>sessions := sessions ?s1 @ [(sid, \<lparr>transport = length (transports ?s1)\<rparr>)],
        transports := transports ?s1 @ [construct (Some sid)],
        responses := responses ?s1 @
          [\<lparr>listeners = [], handler = AwaitConnectStateful sid (length (transports ?s1))\<rparr>],
        trace := trace ?s1 @
          [NewTransport (length (transports ?s1)),
           SessionsSet sid (length (transports ?s1)),
           ServerConnect server (length (transports ?s1))]\<rparr>"
    using st(3,9) by (rule handler_entry_create)
  have new: "transports (step (Request (Some sid)) ?s1) = transports ?s1 @ [construct (Some sid)]"
    "map_get (sessions (step (Request (Some sid)) ?s1)) sid = Some \<lparr>transport = length (transports s)\<rparr>"
    unfolding step.simps(1) [of "Some sid" ?s1] again
    using st(6,9) by (simp_all add: map_get_append)
  have reg: "listeners (responses (handle (Some sid') Fulfilled h s) ! length (responses s)) =
      [CloseAndDelete (length (transports s)) sid']"
    if "sid' \<noteq> [] \<and> map_get (sessions s) sid' = None"
    using that by (simp add: handle_create)
  from st(10) rep new st(2) open_entry reg show ?thesis
    by blast
qed

theorem close_listener_closes_then_deletes_witness:
  "run [Request (Some ''abc''), ConnectSettled 0 Fulfilled] init_mux
      = run [Request (Some ''abc''), ConnectSettled 0 Fulfilled] init_mux
    \<and> 0 < length (responses (run [Request (Some ''abc''), ConnectSettled 0 Fulfilled] init_mux))
    \<and> listeners (responses (run [Request (Some ''abc''), ConnectSettled 0 Fulfilled] init_mux) ! 0)
        = [CloseAndDelete 0 ''abc'']
    \<and> (0::nat) < 2
    \<and> map_get (sessions (run [Request (Some ''abc''), ConnectSettled 0 Fulfilled] init_mux)) ''abc''
        = Some \<lparr>transport = 0\<rparr>
    \<and> ''xyz'' \<noteq> []
    \<and> map_get (sessions (run [Request (Some ''abc''), ConnectSettled 0 Fulfilled] init_mux)) ''xyz'' = None
    \<and> close_calls (transports ((step (Close 0) ^^ 2)
          (run [Request (Some ''abc''), ConnectSettled 0 Fulfilled] init_mux)) ! 0) = 2
    \<and> map_get (sessions ((step (Close 0) ^^ 2)
          (run [Request (Some ''abc''), ConnectSettled 0 Fulfilled] init_mux))) ''abc'' = None
    \<and> map_get (sessions (step (Request (Some ''abc'')) (step (Close 0)
          (run [Request (Some ''abc''), ConnectSettled 0 Fulfilled] init_mux)))) ''abc''
        = Some \<lparr>transport = 1\<rparr>
    \<and> listeners (responses (handle (Some ''xyz'') Fulfilled Fulfilled
          (run [Request (Some ''abc''), ConnectSettled 0 Fulfilled] init_mux)) ! 1)
        = [CloseAndDelete 1 ''xyz'']"
proof -
  let ?S = "run [Request (Some ''abc''), ConnectSettled 0 Fulfilled] init_mux"
  have st: "?S =
      \<lparr>sessions = [(''abc'', \<lparr>transport = 0\<rparr>)],
       transports = [(construct (Some ''abc''))\<lparr>connected := Some server\<rparr>],
       responses = [\<lparr>listeners = [CloseAndDelete 0 ''abc''], handler = AwaitHandleRequest 0\<rparr>],
       trace = [NewTransport 0, SessionsSet ''abc'' 0, ServerConnect server 0,
                ResOnClose 0 (CloseAndDelete 0 ''abc''), TransportHandleRequest 0 0],
       replies = []\<rparr>"
    by (simp add: run_def init_mux_def handler_entry_def after_connect_def op_defs Let_def construct_def)
  have facts: "length (responses ?S) = 1" "listeners (responses ?S ! 0) = [CloseAndDelete 0 ''abc'']"
    "map_get (sessions ?S) ''xyz'' = None" "close_calls (transports ?S ! 0) = 0"
    "length (transports ?S) = 1" "map_get (sessions ?S) ''abc'' = Some \<lparr>transport = 0\<rparr>"
    by (simp_all add: st construct_def)
  show ?thesis
    using facts
      close_listener_closes_then_deletes [OF refl,
        where evs = "[Request (Some ''abc''), ConnectSettled 0 Fulfilled]" and r = 0 and t = 0
          and sid = "''abc''" and n = 2 and sid' = "''xyz''" and h = Fulfilled
          and k = "''abc''" and session = "\<lparr>transport = 0\<rparr>"]
    by simp
qed


section \<open>Concurrent first contact\<close>

lemma count_identities:
  "length (filter (\<lambda>T. sessionIdGenerator T = g) (transports s)) =
   length (filter (\<lambda>x. x = g) (identities s))"
  by (simp add: identities_def filter_map comp_def)

lemma run_Cons: "run (ev # evs) s = run evs (step ev s)"
  by (simp add: run_def)

lemma identities_transport_close: "identities (transport_close t s) = identities s"
  by (simp add: identities_def transport_close_def map_update update_field_map)

text \<open>One event that does not run the listener of \<open>sid\<close>, in a well-formed state.\<close>

lemma step_kept:
  assumes "wf s" "\<not> closes_session sid ev s"
  shows "identities (step ev s) = identities s @
      (case ev of
         Request q \<Rightarrow>
           if falsy q then [None]
           else if map_get (sessions s) (the q) = None then [q] else []
       | _ \<Rightarrow> [])"
    and "map_get (sessions (step ev s)) sid =
      (case ev of
         Request q \<Rightarrow>
           if \<not> falsy q \<and> q = Some sid \<and> map_get (sessions s) sid = None
           then Some \<lparr>transport = length (transports s)\<rparr>
           else map_get (sessions s) sid
       | _ \<Rightarrow> map_get (sessions s) sid)"
proof -
  have close: "identities (emit_close r s) = identities s
      \<and> map_get (sessions (emit_close r s)) sid = map_get (sessions s) sid"
    if "\<not> closes_session sid (Close r) s" for r
  proof (cases "r < length (responses s)")
    case False
    then show ?thesis by (simp add: emit_close_none)
  next
    case True
    with assms(1) have "listeners_ok (transports s) (listeners (responses s ! r))"
      by (simp add: wf_def list_all_length response_ok_def)
    then show ?thesis
    proof (cases rule: listeners_ok_cases)
      case none
      then show ?thesis by (simp add: emit_close_none)
    next
      case (stateless t)
      with True show ?thesis
        by (simp add: emit_close_stateless identities_transport_close) (simp add: transport_close_def)
    next
      case (stateful t sid')
      with that True have "sid' \<noteq> sid"
        by simp
      moreover have "distinct (map fst (sessions s))"
        using assms(1) by (simp add: wf_def)
      ultimately have "map_get (map_delete (sessions s) sid') sid = map_get (sessions s) sid"
        by (simp add: map_get_map_delete)
      moreover have "identities (sessions_delete sid' (transport_close t s)) = identities s"
        using identities_transport_close [of t s]
        by (simp add: identities_def sessions_delete_def)
      ultimately show ?thesis
        using stateful True
        by (simp add: emit_close_stateful) (simp add: sessions_delete_def transport_close_def)
    qed
  qed
  show "identities (step ev s) = identities s @
      (case ev of
         Request q \<Rightarrow>
           if falsy q then [None]
           else if map_get (sessions s) (the q) = None then [q] else []
       | _ \<Rightarrow> [])"
  proof (cases ev)
    case (Request q)
    show ?thesis
    proof (cases rule: handler_entry_cases [where q = q and s = s])
      case stateless
      with Request show ?thesis
        by (simp add: handler_entry_stateless identities_def construct_def)
    next
      case (create sid0)
      with Request show ?thesis
        by (simp add: handler_entry_create identities_def construct_def)
    next
      case (reuse sid0 session)
      with Request show ?thesis
        by (simp add: handler_entry_reuse identities_def)
    qed
  next
    case (ConnectSettled r c)
    then show ?thesis by (simp add: after_connect_frame)
  next
    case (HandleRequestSettled r h)
    then show ?thesis by (simp add: identities_def after_handleRequest_frame)
  next
    case (Close r)
    with assms(2) close [of r] show ?thesis by simp
  qed
  show "map_get (sessions (step ev s)) sid =
      (case ev of
         Request q \<Rightarrow>
           if \<not> falsy q \<and> q = Some sid \<and> map_get (sessions s) sid = None
           then Some \<lparr>transport = length (transports s)\<rparr>
           else map_get (sessions s) sid
       | _ \<Rightarrow> map_get (sessions s) sid)"
  proof (cases ev)
    case (Request q)
    show ?thesis
    proof (cases rule: handler_entry_cases [where q = q and s = s])
      case stateless
      with Request show ?thesis
        by (simp add: handler_entry_stateless)
    next
      case (create sid0)
      with Request show ?thesis
        by (auto simp: handler_entry_create map_get_append split: option.splits)
    next
      case (reuse sid0 session)
      with Request show ?thesis
        by (auto simp: handler_entry_reuse)
    qed
  next
    case (ConnectSettled r c)
    then show ?thesis by (simp add: after_connect_frame)
  next
    case (HandleRequestSettled r h)
    then show ?thesis by (simp add: after_handleRequest_frame)
  next
    case (Close r)
    with assms(2) close [of r] show ?thesis by simp
  qed
qed

text \<open>
  As long as the listener of \<open>sid\<close> does not run, there is a transport constructed for
  \<open>sid\<close> exactly if \<^verbatim>\<open>sessions\<close> holds \<open>sid\<close>, and then there is one.
\<close>

lemma kept_invariant:
  assumes "wf s0"
    "length (filter (\<lambda>x. x = Some sid) (identities s0)) =
       (if map_get (sessions s0) sid = None then 0 else 1)"
    "session_kept sid evs s0"
  shows "length (filter (\<lambda>x. x = Some sid) (identities (run evs s0))) =
           (if map_get (sessions (run evs s0)) sid = None then 0 else 1)
    \<and> (map_get (sessions (run evs s0)) sid \<noteq> None \<longleftrightarrow>
           map_get (sessions s0) sid \<noteq> None \<or> (sid \<noteq> [] \<and> Request (Some sid) \<in> set evs))"
  using assms
proof (induction evs arbitrary: s0)
  case Nil
  then show ?case by (simp add: run_def)
next
  case (Cons ev evs)
  let ?s1 = "step ev s0"
  from Cons.prems(3) have nc: "\<not> closes_session sid ev s0" and kept: "session_kept sid evs ?s1"
    by simp_all
  have wf1: "wf ?s1"
    using Cons.prems(1) by (rule wf_step)
  note st = step_kept(1) [OF Cons.prems(1) nc] step_kept(2) [OF Cons.prems(1) nc]
  have inv1: "length (filter (\<lambda>x. x = Some sid) (identities ?s1)) =
       (if map_get (sessions ?s1) sid = None then 0 else 1)"
    and seen1: "map_get (sessions ?s1) sid \<noteq> None \<longleftrightarrow>
       map_get (sessions s0) sid \<noteq> None \<or> (sid \<noteq> [] \<and> ev = Request (Some sid))"
  proof -
    show "length (filter (\<lambda>x. x = Some sid) (identities ?s1)) =
       (if map_get (sessions ?s1) sid = None then 0 else 1)"
    proof (cases ev)
      case (Request q)
      show ?thesis
      proof (cases q)
        case None
        with Cons.prems(2) Request show ?thesis
          unfolding st by simp
      next
        case (Some sid0)
        with Cons.prems(2) Request show ?thesis
          unfolding st by (cases "sid0 = sid") auto
      qed
    next
      case (ConnectSettled r c)
      with Cons.prems(2) show ?thesis
        unfolding st by simp
    next
      case (HandleRequestSettled r h)
      with Cons.prems(2) show ?thesis
        unfolding st by simp
    next
      case (Close r)
      with Cons.prems(2) show ?thesis
        unfolding st by simp
    qed
    show "map_get (sessions ?s1) sid \<noteq> None \<longleftrightarrow>
       map_get (sessions s0) sid \<noteq> None \<or> (sid \<noteq> [] \<and> ev = Request (Some sid))"
    proof (cases ev)
      case (Request q)
      then show ?thesis
        unfolding st by (cases q) auto
    next
      case (ConnectSettled r c)
      then show ?thesis
        unfolding st by simp
    next
      case (HandleRequestSettled r h)
      then show ?thesis
        unfolding st by simp
    next
      case (Close r)
      then show ?thesis
        unfolding st by simp
    qed
  qed
  from Cons.IH [OF wf1 inv1 kept] seen1 show ?case
    unfolding run_Cons by auto
qed


text \<open>
  C9, as the specification states it, fails. The first request for \<^verbatim>\<open>abc\<close> creates the
  session; a second one finds it and is being driven on its transport when the
  response of the first emits \<^verbatim>\<open>close\<close>, which deletes \<^verbatim>\<open>abc\<close>; a third request for \<^verbatim>\<open>abc\<close>
  arrives and creates a second transport for \<^verbatim>\<open>abc\<close>. The second and the third request are
  in flight at the same time, on two transports constructed for the same \<^verbatim>\<open>sessionId\<close>.
\<close>

theorem concurrent_requests_two_transports_counterexample:
  "length (filter (\<lambda>T. sessionIdGenerator T = Some ''abc'')
      (transports (run [Request (Some ''abc''), ConnectSettled 0 Fulfilled, Request (Some ''abc''),
         Close 0, Request (Some ''abc'')] init_mux))) = 2
    \<and> handler (responses (run [Request (Some ''abc''), ConnectSettled 0 Fulfilled,
         Request (Some ''abc''), Close 0, Request (Some ''abc'')] init_mux) ! 1) = AwaitHandleRequest 0
    \<and> handler (responses (run [Request (Some ''abc''), ConnectSettled 0 Fulfilled,
         Request (Some ''abc''), Close 0, Request (Some ''abc'')] init_mux) ! 2) =
         AwaitConnectStateful ''abc'' 1"
  by (simp add: run_def init_mux_def handler_entry_def after_connect_def emit_close_def op_defs
      Let_def construct_def)

text \<open>
  C9, amended. The lookup in \<^verbatim>\<open>sessions\<close> and the insertion are in one segment of the
  handler, with no \<^verbatim>\<open>await\<close> between them, so no other invocation runs between the two:
  after the first segment of a request with a truthy \<^verbatim>\<open>sessionId\<close> the entry is there. Take
  any reachable state in which no transport has been constructed for a \<^verbatim>\<open>sessionId\<close>, and
  any schedule from there in which no \<^verbatim>\<open>close\<close> event runs the listener that deletes this
  \<^verbatim>\<open>sessionId\<close>; the segments of any number of requests interleave in it in any order, and
  any other response may close. Then at most one transport is constructed for the
  \<^verbatim>\<open>sessionId\<close> and \<^verbatim>\<open>sessions\<close> holds at most one entry for it; and if at least one request
  of the schedule carried the \<^verbatim>\<open>sessionId\<close>, exactly one transport was constructed for it and
  the entry of \<^verbatim>\<open>sessions\<close> refers to a transport constructed for it.
\<close>

theorem single_transport_while_session_kept:
  assumes "s0 = run evs0 init_mux"
    "filter (\<lambda>T. sessionIdGenerator T = Some sid) (transports s0) = []"
    "session_kept sid evs s0"
    "s = run evs s0"
  shows "length (filter (\<lambda>T. sessionIdGenerator T = Some sid) (transports s)) \<le> 1
    \<and> length (filter (\<lambda>e. fst e = sid) (sessions s)) \<le> 1
    \<and> (sid \<noteq> [] \<longrightarrow> map_get (sessions (step (Request (Some sid)) s')) sid \<noteq> None)
    \<and> (sid \<noteq> [] \<and> Request (Some sid) \<in> set evs \<longrightarrow>
          length (filter (\<lambda>T. sessionIdGenerator T = Some sid) (transports s)) = 1
        \<and> (\<exists>session. map_get (sessions s) sid = Some session
              \<and> transport session < length (transports s)
              \<and> sessionIdGenerator (transports s ! transport session) = Some sid))"
proof -
  have reach: "s = run (evs0 @ evs) init_mux"
    using assms(1,4) by (simp add: run_def)
  have wf0: "wf s0"
    using assms(1) wf_reachable by simp
  have absent0: "map_get (sessions s0) sid = None"
  proof (cases "map_get (sessions s0) sid")
    case None
    then show ?thesis .
  next
    case (Some session)
    from reachable_entry(2,3) [OF assms(1) Some]
    have "transports s0 ! transport session \<in> set (transports s0)"
      and "sessionIdGenerator (transports s0 ! transport session) = Some sid"
      by simp_all
    then have "transports s0 ! transport session
        \<in> set (filter (\<lambda>T. sessionIdGenerator T = Some sid) (transports s0))"
      by simp
    with assms(2) show ?thesis by simp
  qed
  have start: "length (filter (\<lambda>x. x = Some sid) (identities s0)) =
       (if map_get (sessions s0) sid = None then 0 else 1)"
    using assms(2) absent0 by (simp add: count_identities [symmetric])
  note inv = kept_invariant [OF wf0 start assms(3), folded assms(4)]
  have count: "length (filter (\<lambda>T. sessionIdGenerator T = Some sid) (transports s)) =
      (if map_get (sessions s) sid = None then 0 else 1)"
    using inv by (simp add: count_identities)
  then have le: "length (filter (\<lambda>T. sessionIdGenerator T = Some sid) (transports s)) \<le> 1"
    by simp
  have "wf s"
    using reach wf_reachable by simp
  then have "distinct (map fst (sessions s))"
    by (simp add: wf_def)
  then have one: "length (filter (\<lambda>e. fst e = sid) (sessions s)) \<le> 1"
    by (simp add: entries_for_key)
  have atomic: "map_get (sessions (step (Request (Some sid)) s')) sid \<noteq> None" if "sid \<noteq> []"
  proof (cases "map_get (sessions s') sid")
    case None
    with that show ?thesis by (simp add: handler_entry_create map_get_append)
  next
    case (Some session)
    with that show ?thesis by (simp add: handler_entry_reuse)
  qed
  have seen: "length (filter (\<lambda>T. sessionIdGenerator T = Some sid) (transports s)) = 1
        \<and> (\<exists>session. map_get (sessions s) sid = Some session
              \<and> transport session < length (transports s)
              \<and> sessionIdGenerator (transports s ! transport session) = Some sid)"
    if "sid \<noteq> [] \<and> Request (Some sid) \<in> set evs"
  proof -
    from that inv obtain session where present: "map_get (sessions s) sid = Some session"
      by auto
    with count reachable_entry(2,3) [OF reach present] show ?thesis
      by simp
  qed
  from le one atomic seen show ?thesis
    by blast
qed

theorem single_transport_while_session_kept_witness:
  "run [Request None, ConnectSettled 0 Fulfilled] init_mux
      = run [Request None, ConnectSettled 0 Fulfilled] init_mux
    \<and> filter (\<lambda>T. sessionIdGenerator T = Some ''abc'')
        (transports (run [Request None, ConnectSettled 0 Fulfilled] init_mux)) = []
    \<and> session_kept ''abc''
        [Request (Some ''abc''), Request (Some ''abc''), Close 0, Request (Some ''abc''),
         ConnectSettled 1 Fulfilled]
        (run [Request None, ConnectSettled 0 Fulfilled] init_mux)
    \<and> ''abc'' \<noteq> []
    \<and> Request (Some ''abc'') \<in> set
        [Request (Some ''abc''), Request (Some ''abc''), Close 0, Request (Some ''abc''),
         ConnectSettled 1 Fulfilled]
    \<and> length (filter (\<lambda>T. sessionIdGenerator T = Some ''abc'')
        (transports (run [Request (Some ''abc''), Request (Some ''abc''), Close 0,
           Request (Some ''abc''), ConnectSettled 1 Fulfilled]
           (run [Request None, ConnectSettled 0 Fulfilled] init_mux)))) = 1
    \<and> map_get (sessions (step (Request (Some ''abc'')) init_mux)) ''abc'' \<noteq> None"
proof -
  let ?s0 = "run [Request None, ConnectSettled 0 Fulfilled] init_mux"
  let ?evs = "[Request (Some ''abc''), Request (Some ''abc''), Close 0, Request (Some ''abc''),
    ConnectSettled 1 Fulfilled]"
  have s0: "?s0 =
      \<lparr>sessions = [],
       transports = [(construct None)\<lparr>connected := Some server\<rparr>],
       responses = [\<lparr>listeners = [CloseTransport 0], handler = AwaitHandleRequest 0\<rparr>],
       trace = [NewTransport 0, ResOnClose 0 (CloseTransport 0), ServerConnect server 0,
                TransportHandleRequest 0 0],
       replies = []\<rparr>"
    by (simp add: run_def init_mux_def handler_entry_def after_connect_def op_defs Let_def construct_def)
  have unseen: "filter (\<lambda>T. sessionIdGenerator T = Some ''abc'') (transports ?s0) = []"
    by (simp add: s0 construct_def)
  have kept: "session_kept ''abc'' ?evs ?s0"
    unfolding s0
    by (simp add: handler_entry_def after_connect_def emit_close_def op_defs Let_def construct_def)
  show ?thesis
    using unseen kept
      single_transport_while_session_kept [OF refl unseen kept refl, where s' = init_mux]
    by simp
qed

end
